theory Spec2Isabelle
  imports Main "HOL-Library.Word" "HOL-Library.AList" "HOL-Library.Multiset"
begin

unbundle bit_operations_syntax

section \<open>The graphics API as seen by the renderer\<close>

text \<open>
  The renderer (DeviceAllocator.cpp, Frame.cpp) is a client of two native libraries: the
  Vulkan API and the Vulkan Memory Allocator (VMA). Neither is code of the renderer.
  They are modelled as a state of native objects (\<open>vk_state\<close>) together with a
  \<open>native\<close> driver that decides the \<open>VkResult\<close> of every native call that has one.
  Handles are 64-bit values and \<open>VK_NULL_HANDLE\<close> is 0; flag words are 32 bits wide.
\<close>

type_synonym handle = "64 word"
type_synonym VkFlags = "32 word"
type_synonym size_t = "64 word"
type_synonym uint32_t = "32 word"
type_synonym byte = "8 word"
type_synonym VkResult = int

definition VK_NULL_HANDLE :: handle where "VK_NULL_HANDLE = 0"

definition VK_SUCCESS :: VkResult where "VK_SUCCESS = 0"
definition VK_ERROR_MEMORY_MAP_FAILED :: VkResult where "VK_ERROR_MEMORY_MAP_FAILED = - 5"

definition VK_BUFFER_USAGE_TRANSFER_SRC_BIT :: VkFlags where "VK_BUFFER_USAGE_TRANSFER_SRC_BIT = 0x1"
definition VK_BUFFER_USAGE_TRANSFER_DST_BIT :: VkFlags where "VK_BUFFER_USAGE_TRANSFER_DST_BIT = 0x2"
definition VK_BUFFER_USAGE_VERTEX_BUFFER_BIT :: VkFlags where "VK_BUFFER_USAGE_VERTEX_BUFFER_BIT = 0x80"
definition VK_MEMORY_PROPERTY_DEVICE_LOCAL_BIT :: VkFlags where "VK_MEMORY_PROPERTY_DEVICE_LOCAL_BIT = 0x1"
definition VK_MEMORY_PROPERTY_HOST_VISIBLE_BIT :: VkFlags where "VK_MEMORY_PROPERTY_HOST_VISIBLE_BIT = 0x2"
definition VK_MEMORY_PROPERTY_HOST_COHERENT_BIT :: VkFlags where "VK_MEMORY_PROPERTY_HOST_COHERENT_BIT = 0x4"
definition VMA_ALLOCATION_CREATE_HOST_ACCESS_SEQUENTIAL_WRITE_BIT :: VkFlags where
  "VMA_ALLOCATION_CREATE_HOST_ACCESS_SEQUENTIAL_WRITE_BIT = 0x400"
definition VK_COMMAND_POOL_CREATE_RESET_COMMAND_BUFFER_BIT :: VkFlags where
  "VK_COMMAND_POOL_CREATE_RESET_COMMAND_BUFFER_BIT = 0x2"
definition VK_FENCE_CREATE_SIGNALED_BIT :: VkFlags where "VK_FENCE_CREATE_SIGNALED_BIT = 0x1"
definition VK_COMMAND_BUFFER_USAGE_ONE_TIME_SUBMIT_BIT :: VkFlags where
  "VK_COMMAND_BUFFER_USAGE_ONE_TIME_SUBMIT_BIT = 0x1"

datatype VkSharingMode = VK_SHARING_MODE_EXCLUSIVE | VK_SHARING_MODE_CONCURRENT
datatype VmaMemoryUsage = VMA_MEMORY_USAGE_AUTO | VMA_MEMORY_USAGE_AUTO_PREFER_DEVICE
datatype VkCommandBufferLevel = VK_COMMAND_BUFFER_LEVEL_PRIMARY | VK_COMMAND_BUFFER_LEVEL_SECONDARY

record VkBufferCreateInfo =
  bci_size :: nat
  bci_usage :: VkFlags
  bci_sharingMode :: VkSharingMode

record VmaAllocationCreateInfo =
  aci_usage :: VmaMemoryUsage
  aci_requiredFlags :: VkFlags
  aci_flags :: VkFlags

record VkBufferCopy =
  srcOffset :: nat
  dstOffset :: nat
  copy_size :: nat

text \<open>A recorded transfer command: \<open>vkCmdCopyBuffer\<close> with its single region.\<close>

datatype command = CmdCopyBuffer handle handle VkBufferCopy

text \<open>The native calls that return a \<open>VkResult\<close>, with the arguments that matter.\<close>

datatype native_call =
    VmaCreateBuffer VkBufferCreateInfo VmaAllocationCreateInfo
  | VmaCopyMemoryToAllocation handle nat nat
  | VkAllocateCommandBuffers handle VkCommandBufferLevel
  | VkBeginCommandBuffer handle VkFlags
  | VkEndCommandBuffer handle
  | VkQueueSubmit handle handle
  | VkQueueWaitIdle handle
  | VkCreateCommandPool handle VkFlags uint32_t
  | VkCreateSemaphore handle
  | VkCreateFence handle VkFlags

text \<open>
  The driver: the result it reports for each call, and the bytes a new allocation of a
  given size happens to hold (new memory is uninitialised).
\<close>

record native =
  result :: "native_call \<Rightarrow> VkResult"
  uninitialised :: "nat \<Rightarrow> byte list"

text \<open>Events of object destruction, in the order in which they happen.\<close>

datatype event =
    ReleaseDescriptorSet nat
  | ReleaseDescriptorPool nat
  | DestroyFence handle
  | DestroySemaphore handle
  | DestroyCommandPool handle

text \<open>
  A command buffer goes through the states of the Vulkan lifecycle: commands are taken
  only while it is recording, and it can be submitted only once recording has ended.
\<close>

datatype cb_state = Initial | Recording | Executable | Pending

record command_buffer =
  cb_pool :: handle
  cb_state :: cb_state
  cb_commands :: "command list"

text \<open>
  The device runs on its own: submitted commands wait in the queue (\<open>pending\<close>), and
  the host knows that they have run only when a wait on the queue has returned.
\<close>

record vk_state =
  buffers :: "handle \<rightharpoonup> VkBufferCreateInfo \<times> handle"
  allocations :: "handle \<rightharpoonup> VmaAllocationCreateInfo \<times> byte list"
  commandPools :: "handle \<rightharpoonup> VkFlags \<times> uint32_t"
  commandBuffers :: "handle \<rightharpoonup> command_buffer"
  pending :: "handle \<Rightarrow> command list"
  semaphores :: "handle \<rightharpoonup> unit"
  fences :: "handle \<rightharpoonup> bool"
  next_handle :: handle
  destroyed :: "event list"

text \<open>A new non-null handle: the counter is stepped first, so 0 is never handed out
  before the counter wraps.\<close>

definition new_handle :: "vk_state \<Rightarrow> handle \<times> vk_state" where
  "new_handle s = (next_handle s + 1, s\<lparr>next_handle := next_handle s + 1\<rparr>)"

subsection \<open>The assertion contract\<close>

datatype fatal = AssertionFailed VkResult

text \<open>
  Modelled from the spec: the macro \<open>VK_ASSERT\<close> of VkHelpers.h, which is not among the
  sources. The spec says: any native call failure is fatal (aborts via an assertion
  contract). So a result other than \<open>VK_SUCCESS\<close> ends the run, and \<open>VK_SUCCESS\<close> lets
  it go on.
\<close>

definition VK_ASSERT :: "VkResult \<Rightarrow> fatal + unit" where
  "VK_ASSERT r = (if r = VK_SUCCESS then Inr () else Inl (AssertionFailed r))"

subsection \<open>Native calls used by the allocator\<close>

text \<open>\<open>vmaCreateBuffer\<close>: on success a buffer and an allocation bound to it exist; on
  failure nothing is created and both out-parameters keep their \<open>VK_NULL_HANDLE\<close>.\<close>

definition vmaCreateBuffer ::
  "native \<Rightarrow> VkBufferCreateInfo \<Rightarrow> VmaAllocationCreateInfo \<Rightarrow> vk_state
     \<Rightarrow> VkResult \<times> handle \<times> handle \<times> vk_state" where
  "vmaCreateBuffer drv bufferInfo allocInfo s =
     (let r = result drv (VmaCreateBuffer bufferInfo allocInfo) in
      if r = VK_SUCCESS then
        (let (buffer, s1) = new_handle s;
             (allocation, s2) = new_handle s1
         in (r, buffer, allocation,
             s2\<lparr>buffers := (buffers s2)(buffer \<mapsto> (bufferInfo, allocation)),
                allocations := (allocations s2)
                  (allocation \<mapsto> (allocInfo, uninitialised drv (bci_size bufferInfo)))\<rparr>))
      else (r, VK_NULL_HANDLE, VK_NULL_HANDLE, s))"

definition vmaDestroyBuffer :: "handle \<Rightarrow> handle \<Rightarrow> vk_state \<Rightarrow> vk_state" where
  "vmaDestroyBuffer buffer allocation s =
     s\<lparr>buffers := (buffers s)(buffer := None),
       allocations := (allocations s)(allocation := None)\<rparr>"

text \<open>Writing \<open>n\<close> bytes of \<open>src\<close> over the start of \<open>dst\<close> (offset 0 on both sides).\<close>

definition overwrite :: "nat \<Rightarrow> byte list \<Rightarrow> byte list \<Rightarrow> byte list" where
  "overwrite n src dst = take n src @ drop n dst"

text \<open>\<open>vmaCopyMemoryToAllocation\<close> returns a \<open>VkResult\<close>: mapping the allocation can
  fail, and then nothing is written.\<close>

definition vmaCopyMemoryToAllocation ::
  "native \<Rightarrow> byte list \<Rightarrow> handle \<Rightarrow> nat \<Rightarrow> nat \<Rightarrow> vk_state \<Rightarrow> VkResult \<times> vk_state" where
  "vmaCopyMemoryToAllocation drv pSrcHostPointer allocation off n s =
     (let r = result drv (VmaCopyMemoryToAllocation allocation off n) in
      if r = VK_SUCCESS then
        (case allocations s allocation of
           None \<Rightarrow> (r, s)
         | Some (info, bytes) \<Rightarrow>
             (r, s\<lparr>allocations := (allocations s)
                     (allocation \<mapsto> (info, take off bytes @ overwrite n pSrcHostPointer (drop off bytes)))\<rparr>))
      else (r, s))"

definition vkAllocateCommandBuffers ::
  "native \<Rightarrow> handle \<Rightarrow> VkCommandBufferLevel \<Rightarrow> vk_state \<Rightarrow> VkResult \<times> handle \<times> vk_state" where
  "vkAllocateCommandBuffers drv pool level s =
     (let r = result drv (VkAllocateCommandBuffers pool level) in
      if r = VK_SUCCESS then
        (let (cb, s1) = new_handle s
         in (r, cb, s1\<lparr>commandBuffers := (commandBuffers s1)
                          (cb \<mapsto> \<lparr>cb_pool = pool, cb_state = Initial, cb_commands = []\<rparr>)\<rparr>))
      else (r, VK_NULL_HANDLE, s))"

definition vkBeginCommandBuffer ::
  "native \<Rightarrow> handle \<Rightarrow> VkFlags \<Rightarrow> vk_state \<Rightarrow> VkResult \<times> vk_state" where
  "vkBeginCommandBuffer drv cb flags s =
     (let r = result drv (VkBeginCommandBuffer cb flags) in
      if r = VK_SUCCESS then
        (case commandBuffers s cb of
           None \<Rightarrow> (r, s)
         | Some b \<Rightarrow>
             (r, s\<lparr>commandBuffers := (commandBuffers s)
                     (cb \<mapsto> b\<lparr>cb_state := Recording, cb_commands := []\<rparr>)\<rparr>))
      else (r, s))"

text \<open>A command is recorded only into a command buffer that is recording.\<close>

definition vkCmdCopyBuffer :: "handle \<Rightarrow> handle \<Rightarrow> handle \<Rightarrow> VkBufferCopy \<Rightarrow> vk_state \<Rightarrow> vk_state" where
  "vkCmdCopyBuffer cb srcBuffer dstBuffer region s =
     (case commandBuffers s cb of
        None \<Rightarrow> s
      | Some b \<Rightarrow>
          if cb_state b = Recording then
            s\<lparr>commandBuffers := (commandBuffers s)
                 (cb \<mapsto> b\<lparr>cb_commands := cb_commands b @ [CmdCopyBuffer srcBuffer dstBuffer region]\<rparr>)\<rparr>
          else s)"

definition vkEndCommandBuffer :: "native \<Rightarrow> handle \<Rightarrow> vk_state \<Rightarrow> VkResult \<times> vk_state" where
  "vkEndCommandBuffer drv cb s =
     (let r = result drv (VkEndCommandBuffer cb) in
      if r = VK_SUCCESS then
        (case commandBuffers s cb of
           None \<Rightarrow> (r, s)
         | Some b \<Rightarrow>
             if cb_state b = Recording then
               (r, s\<lparr>commandBuffers := (commandBuffers s)(cb \<mapsto> b\<lparr>cb_state := Executable\<rparr>)\<rparr>)
             else (r, s))
      else (r, s))"

text \<open>The bytes a buffer holds: the first \<open>size\<close> bytes of the allocation bound to it
  (an allocation may be larger than the buffer it backs).\<close>

definition contents :: "vk_state \<Rightarrow> handle \<Rightarrow> byte list option" where
  "contents s buffer =
     (case buffers s buffer of
        None \<Rightarrow> None
      | Some (info, allocation) \<Rightarrow>
          map_option (\<lambda>(ainfo, bytes). take (bci_size info) bytes) (allocations s allocation))"

text \<open>Running a copy command changes memory only; nothing is copied when one of the two
  buffers or its memory is gone by then.\<close>

fun copy_memory ::
  "(handle \<rightharpoonup> VkBufferCreateInfo \<times> handle) \<Rightarrow> command
     \<Rightarrow> (handle \<rightharpoonup> VmaAllocationCreateInfo \<times> byte list)
     \<Rightarrow> (handle \<rightharpoonup> VmaAllocationCreateInfo \<times> byte list)" where
  "copy_memory bufs (CmdCopyBuffer src dst region) mem =
     (case (bufs src, bufs dst) of
        (Some (si, sa), Some (di, da)) \<Rightarrow>
          (case (mem sa, mem da) of
             (Some (sinfo, sbytes), Some (dinfo, dbytes)) \<Rightarrow>
               mem(da \<mapsto> (dinfo, take (dstOffset region) dbytes
                                  @ overwrite (copy_size region) (drop (srcOffset region) sbytes)
                                      (drop (dstOffset region) dbytes)))
           | _ \<Rightarrow> mem)
      | _ \<Rightarrow> mem)"

definition execute :: "command \<Rightarrow> vk_state \<Rightarrow> vk_state" where
  "execute c s = s\<lparr>allocations := copy_memory (buffers s) c (allocations s)\<rparr>"

text \<open>
  A successful submission of an executable command buffer puts its commands at the end
  of the queue; they have not run yet. A successful \<open>vkQueueWaitIdle\<close> returns when
  everything in the queue has run, in order: the model runs the commands then, which
  is the latest the device may run them.
\<close>

definition vkQueueSubmit :: "native \<Rightarrow> handle \<Rightarrow> handle \<Rightarrow> vk_state \<Rightarrow> VkResult \<times> vk_state" where
  "vkQueueSubmit drv queue cb s =
     (let r = result drv (VkQueueSubmit queue cb) in
      if r = VK_SUCCESS then
        (case commandBuffers s cb of
           None \<Rightarrow> (r, s)
         | Some b \<Rightarrow>
             if cb_state b = Executable then
               (r, s\<lparr>pending := (pending s)(queue := pending s queue @ cb_commands b),
                      commandBuffers := (commandBuffers s)(cb \<mapsto> b\<lparr>cb_state := Pending\<rparr>)\<rparr>)
             else (r, s))
      else (r, s))"

definition vkQueueWaitIdle :: "native \<Rightarrow> handle \<Rightarrow> vk_state \<Rightarrow> VkResult \<times> vk_state" where
  "vkQueueWaitIdle drv queue s =
     (let r = result drv (VkQueueWaitIdle queue) in
      if r = VK_SUCCESS then
        (r, (fold execute (pending s queue) s)\<lparr>pending := (pending s)(queue := [])\<rparr>)
      else (r, s))"

definition vkFreeCommandBuffers :: "handle \<Rightarrow> vk_state \<Rightarrow> vk_state" where
  "vkFreeCommandBuffers cb s = s\<lparr>commandBuffers := (commandBuffers s)(cb := None)\<rparr>"

section \<open>DeviceAllocator.cpp\<close>

record DeviceAllocator =
  da_device :: handle
  immediateTransferPool :: handle
  immediateTransferQueue :: handle

text \<open>\<open>DeviceAllocator::allocateBuffer\<close> (lines 114 to 143).\<close>

definition allocateBuffer ::
  "native \<Rightarrow> nat \<Rightarrow> VkFlags \<Rightarrow> VkFlags \<Rightarrow> VkFlags \<Rightarrow> vk_state
     \<Rightarrow> fatal + ((handle \<times> handle) \<times> vk_state)" where
  "allocateBuffer drv size' usage properties allocFlags s =
     (let bufferInfo = \<lparr>bci_size = size',
                         bci_usage = VK_BUFFER_USAGE_TRANSFER_DST_BIT OR usage,
                         bci_sharingMode = VK_SHARING_MODE_EXCLUSIVE\<rparr>;
          allocInfo = \<lparr>aci_usage = VMA_MEMORY_USAGE_AUTO,
                        aci_requiredFlags = properties,
                        aci_flags = allocFlags\<rparr>
      in case vmaCreateBuffer drv bufferInfo allocInfo s of
           (r, buffer, allocation, s') \<Rightarrow>
             (case VK_ASSERT r of
                Inl e \<Rightarrow> Inl e
              | Inr _ \<Rightarrow> Inr ((buffer, allocation), s')))"

text \<open>\<open>DeviceAllocator::copyBuffer\<close> (lines 145 to 179).\<close>

definition copyBuffer ::
  "native \<Rightarrow> DeviceAllocator \<Rightarrow> handle \<Rightarrow> handle \<Rightarrow> nat \<Rightarrow> vk_state \<Rightarrow> fatal + vk_state" where
  "copyBuffer drv this srcBuffer dstBuffer size' s =
     (case vkAllocateCommandBuffers drv (immediateTransferPool this) VK_COMMAND_BUFFER_LEVEL_PRIMARY s of
        (r1, commandBuffer, s1) \<Rightarrow>
     case VK_ASSERT r1 of Inl e \<Rightarrow> Inl e | Inr _ \<Rightarrow>
     case vkBeginCommandBuffer drv commandBuffer VK_COMMAND_BUFFER_USAGE_ONE_TIME_SUBMIT_BIT s1 of
        (r2, s2) \<Rightarrow>
     case VK_ASSERT r2 of Inl e \<Rightarrow> Inl e | Inr _ \<Rightarrow>
     (let copyRegion = \<lparr>srcOffset = 0, dstOffset = 0, copy_size = size'\<rparr>;
          s3 = vkCmdCopyBuffer commandBuffer srcBuffer dstBuffer copyRegion s2
      in case vkEndCommandBuffer drv commandBuffer s3 of
           (r3, s4) \<Rightarrow>
         case VK_ASSERT r3 of Inl e \<Rightarrow> Inl e | Inr _ \<Rightarrow>
         case vkQueueSubmit drv (immediateTransferQueue this) commandBuffer s4 of
           (r4, s5) \<Rightarrow>
         case VK_ASSERT r4 of Inl e \<Rightarrow> Inl e | Inr _ \<Rightarrow>
         case vkQueueWaitIdle drv (immediateTransferQueue this) s5 of
           (r5, s6) \<Rightarrow>
         case VK_ASSERT r5 of Inl e \<Rightarrow> Inl e | Inr _ \<Rightarrow>
         Inr (vkFreeCommandBuffers commandBuffer s6)))"

text \<open>
  \<open>DeviceAllocator::allocateDeviceLocalBufferAndTransfer\<close> (lines 33 to 62). The first
  call of \<open>allocateBuffer\<close> leaves out the allocation flags; their default is declared in
  DeviceAllocator.h, which is not among the sources, so it is the parameter
  \<open>defaultAllocFlags\<close>. The result of \<open>vmaCopyMemoryToAllocation\<close> is dropped, as written
  in line 50.
\<close>

definition allocateDeviceLocalBufferAndTransfer ::
  "native \<Rightarrow> DeviceAllocator \<Rightarrow> VkFlags \<Rightarrow> byte list \<Rightarrow> nat \<Rightarrow> VkFlags \<Rightarrow> vk_state
     \<Rightarrow> fatal + ((handle \<times> handle) \<times> vk_state)" where
  "allocateDeviceLocalBufferAndTransfer drv this defaultAllocFlags data size' usage s =
     (case allocateBuffer drv size' (usage OR VK_BUFFER_USAGE_TRANSFER_DST_BIT)
             VK_MEMORY_PROPERTY_DEVICE_LOCAL_BIT defaultAllocFlags s of
        Inl e \<Rightarrow> Inl e
      | Inr (destinationBuf, s1) \<Rightarrow>
     case allocateBuffer drv size' VK_BUFFER_USAGE_TRANSFER_SRC_BIT
             (VK_MEMORY_PROPERTY_HOST_VISIBLE_BIT OR VK_MEMORY_PROPERTY_HOST_COHERENT_BIT)
             VMA_ALLOCATION_CREATE_HOST_ACCESS_SEQUENTIAL_WRITE_BIT s1 of
        Inl e \<Rightarrow> Inl e
      | Inr (stagingBuf, s2) \<Rightarrow>
     (let s3 = snd (vmaCopyMemoryToAllocation drv data (snd stagingBuf) 0 size' s2)
      in case copyBuffer drv this (fst stagingBuf) (fst destinationBuf) size' s3 of
           Inl e \<Rightarrow> Inl e
         | Inr s4 \<Rightarrow>
             Inr (destinationBuf, vmaDestroyBuffer (fst stagingBuf) (snd stagingBuf) s4)))"

text \<open>A device with no native objects yet.\<close>

definition empty_vk_state :: vk_state where
  "empty_vk_state =
     \<lparr>buffers = Map.empty, allocations = Map.empty, commandPools = Map.empty,
      commandBuffers = Map.empty, pending = (\<lambda>queue. []), semaphores = Map.empty,
      fences = Map.empty, next_handle = 0, destroyed = []\<rparr>"

text \<open>
  The native calls that \<open>allocateDeviceLocalBufferAndTransfer\<close> makes inside
  \<open>VK_ASSERT\<close>, in the order of the calls and with the arguments they get when the
  calls before them succeeded (the two buffers take the next four handles, the command
  buffer the fifth), and the one call with a result that it makes outside \<open>VK_ASSERT\<close>.
\<close>

definition asserted_calls :: "DeviceAllocator \<Rightarrow> VkFlags \<Rightarrow> nat \<Rightarrow> VkFlags \<Rightarrow> vk_state \<Rightarrow> native_call list" where
  "asserted_calls this defaultAllocFlags size' usage s =
     [VmaCreateBuffer
        \<lparr>bci_size = size',
         bci_usage = VK_BUFFER_USAGE_TRANSFER_DST_BIT OR (usage OR VK_BUFFER_USAGE_TRANSFER_DST_BIT),
         bci_sharingMode = VK_SHARING_MODE_EXCLUSIVE\<rparr>
        \<lparr>aci_usage = VMA_MEMORY_USAGE_AUTO,
         aci_requiredFlags = VK_MEMORY_PROPERTY_DEVICE_LOCAL_BIT,
         aci_flags = defaultAllocFlags\<rparr>,
      VmaCreateBuffer
        \<lparr>bci_size = size',
         bci_usage = VK_BUFFER_USAGE_TRANSFER_DST_BIT OR VK_BUFFER_USAGE_TRANSFER_SRC_BIT,
         bci_sharingMode = VK_SHARING_MODE_EXCLUSIVE\<rparr>
        \<lparr>aci_usage = VMA_MEMORY_USAGE_AUTO,
         aci_requiredFlags = VK_MEMORY_PROPERTY_HOST_VISIBLE_BIT OR VK_MEMORY_PROPERTY_HOST_COHERENT_BIT,
         aci_flags = VMA_ALLOCATION_CREATE_HOST_ACCESS_SEQUENTIAL_WRITE_BIT\<rparr>,
      VkAllocateCommandBuffers (immediateTransferPool this) VK_COMMAND_BUFFER_LEVEL_PRIMARY,
      VkBeginCommandBuffer (next_handle s + 5) VK_COMMAND_BUFFER_USAGE_ONE_TIME_SUBMIT_BIT,
      VkEndCommandBuffer (next_handle s + 5),
      VkQueueSubmit (immediateTransferQueue this) (next_handle s + 5),
      VkQueueWaitIdle (immediateTransferQueue this)]"

definition host_copy_call :: "nat \<Rightarrow> vk_state \<Rightarrow> native_call" where
  "host_copy_call size' s = VmaCopyMemoryToAllocation (next_handle s + 4) 0 size'"

text \<open>Drivers used in the concrete runs below. \<open>all_succeed\<close> reports success for every
  call. \<open>vma_driver\<close> does what VMA does with an empty request: \<open>vmaCreateBuffer\<close>
  returns \<open>VK_ERROR_INITIALIZATION_FAILED\<close> when the size of the buffer is 0 (Vulkan
  requires the size of a buffer to be greater than 0). \<open>map_fails\<close> reports
  \<open>VK_ERROR_MEMORY_MAP_FAILED\<close> for \<open>vmaCopyMemoryToAllocation\<close> and success for
  every other call. New memory holds zeros under all three.\<close>

definition all_succeed :: native where
  "all_succeed = \<lparr>result = (\<lambda>c. VK_SUCCESS), uninitialised = (\<lambda>n. replicate n 0)\<rparr>"



fun map_fails_result :: "native_call \<Rightarrow> VkResult" where
  "map_fails_result (VmaCopyMemoryToAllocation allocation off n) = VK_ERROR_MEMORY_MAP_FAILED"
| "map_fails_result _ = VK_SUCCESS"

definition map_fails :: native where
  "map_fails = \<lparr>result = map_fails_result, uninitialised = (\<lambda>n. replicate n 0)\<rparr>"

definition the_allocator :: DeviceAllocator where
  "the_allocator = \<lparr>da_device = 1, immediateTransferPool = 2, immediateTransferQueue = 3\<rparr>"

section \<open>Frame.cpp\<close>

subsection \<open>Native calls used by a frame\<close>

definition vkCreateCommandPool ::
  "native \<Rightarrow> handle \<Rightarrow> VkFlags \<Rightarrow> uint32_t \<Rightarrow> vk_state \<Rightarrow> VkResult \<times> handle \<times> vk_state" where
  "vkCreateCommandPool drv dev flags queueFamilyIndex s =
     (let r = result drv (VkCreateCommandPool dev flags queueFamilyIndex) in
      if r = VK_SUCCESS then
        (let (pool, s1) = new_handle s
         in (r, pool, s1\<lparr>commandPools := (commandPools s1)(pool \<mapsto> (flags, queueFamilyIndex))\<rparr>))
      else (r, VK_NULL_HANDLE, s))"

definition vkCreateSemaphore :: "native \<Rightarrow> handle \<Rightarrow> vk_state \<Rightarrow> VkResult \<times> handle \<times> vk_state" where
  "vkCreateSemaphore drv dev s =
     (let r = result drv (VkCreateSemaphore dev) in
      if r = VK_SUCCESS then
        (let (sem, s1) = new_handle s
         in (r, sem, s1\<lparr>semaphores := (semaphores s1)(sem \<mapsto> ())\<rparr>))
      else (r, VK_NULL_HANDLE, s))"

text \<open>A fence starts signaled exactly when its create flags hold the signaled bit.\<close>

definition vkCreateFence :: "native \<Rightarrow> handle \<Rightarrow> VkFlags \<Rightarrow> vk_state \<Rightarrow> VkResult \<times> handle \<times> vk_state" where
  "vkCreateFence drv dev flags s =
     (let r = result drv (VkCreateFence dev flags) in
      if r = VK_SUCCESS then
        (let (f, s1) = new_handle s
         in (r, f, s1\<lparr>fences := (fences s1)(f \<mapsto> (flags AND VK_FENCE_CREATE_SIGNALED_BIT \<noteq> 0))\<rparr>))
      else (r, VK_NULL_HANDLE, s))"

text \<open>
  Waiting for a fence with no timeout: the call returns at once when the fence is
  signaled. When it is not, the call returns only after a submission signals the fence;
  with no submission pending it does not return (\<open>None\<close>).
\<close>

definition vkWaitForFences :: "vk_state \<Rightarrow> handle \<Rightarrow> VkResult option" where
  "vkWaitForFences s f = (if fences s f = Some True then Some VK_SUCCESS else None)"

text \<open>The destroy calls take \<open>VK_NULL_HANDLE\<close> and then destroy nothing. Every call is
  entered in the log \<open>destroyed\<close>. Destroying a command pool frees the command buffers
  allocated from it.\<close>

definition vkDestroyFence :: "handle \<Rightarrow> vk_state \<Rightarrow> vk_state" where
  "vkDestroyFence f s =
     (let s1 = s\<lparr>destroyed := destroyed s @ [DestroyFence f]\<rparr>
      in if f = VK_NULL_HANDLE then s1 else s1\<lparr>fences := (fences s1)(f := None)\<rparr>)"

definition vkDestroySemaphore :: "handle \<Rightarrow> vk_state \<Rightarrow> vk_state" where
  "vkDestroySemaphore sem s =
     (let s1 = s\<lparr>destroyed := destroyed s @ [DestroySemaphore sem]\<rparr>
      in if sem = VK_NULL_HANDLE then s1 else s1\<lparr>semaphores := (semaphores s1)(sem := None)\<rparr>)"

definition vkDestroyCommandPool :: "handle \<Rightarrow> vk_state \<Rightarrow> vk_state" where
  "vkDestroyCommandPool pool s =
     (let s1 = s\<lparr>destroyed := destroyed s @ [DestroyCommandPool pool]\<rparr>
      in if pool = VK_NULL_HANDLE then s1
         else s1\<lparr>commandPools := (commandPools s1)(pool := None),
                 commandBuffers := (\<lambda>cb. case commandBuffers s1 cb of
                                           None \<Rightarrow> None
                                         | Some b \<Rightarrow> if cb_pool b = pool then None else Some b)\<rparr>)"

subsection \<open>Descriptor objects and their hashes\<close>

record VkDescriptorBufferInfo =
  dbi_buffer :: handle
  dbi_offset :: "64 word"
  dbi_range :: "64 word"

record VkDescriptorImageInfo =
  dii_sampler :: handle
  dii_imageView :: handle
  dii_imageLayout :: "32 word"

text \<open>A \<open>std::map<uint32_t, T>\<close> argument is the list of its entries in key order, which is
  the order in which the range-for loops of \<open>getDescriptorSet\<close> visit it.\<close>

type_synonym bufferBindings = "(uint32_t \<times> VkDescriptorBufferInfo) list"
type_synonym imageBindings = "(uint32_t \<times> VkDescriptorImageInfo) list"

text \<open>Objects made by \<open>std::make_unique\<close> are identified by their address.\<close>

type_synonym addr = nat

text \<open>
  Modelled from the spec: the classes \<open>DescriptorSetLayout\<close>, \<open>DescriptorPool\<close> and
  \<open>DescriptorSet\<close> (DescriptorPool.h and the files behind it are not among the sources).
  The spec calls them pooled objects that are created lazily and cached; an object keeps
  the arguments of its constructor. The layout class is opaque: it is the type
  parameter \<open>'l\<close>.
\<close>

record 'l DescriptorPool =
  dp_device :: handle
  dp_layout :: 'l

record DescriptorSet =
  ds_device :: handle
  ds_pool :: addr
  ds_bufferBindingInfos :: bufferBindings
  ds_imageBindingInfos :: imageBindings

text \<open>
  VkHash.h is not among the sources, and the spec does not give the hash algorithm. The
  three functions Frame.cpp takes from it are parameters: \<open>hash_value\<close> on a layout, and
  \<open>hash_combine\<close> at the two types at which \<open>getDescriptorSet\<close> calls it. Every
  statement below holds for whatever these functions compute.
\<close>

record 'l VkHash =
  hash_value :: "'l \<Rightarrow> size_t"
  hash_combine_buffer :: "size_t \<Rightarrow> VkDescriptorBufferInfo \<Rightarrow> size_t"
  hash_combine_image :: "size_t \<Rightarrow> VkDescriptorImageInfo \<Rightarrow> size_t"

record 'l heap =
  pool_objs :: "(addr \<times> 'l DescriptorPool) list"
  set_objs :: "(addr \<times> DescriptorSet) list"
  next_addr :: addr

definition empty_heap :: "'l heap" where
  "empty_heap = \<lparr>pool_objs = [], set_objs = [], next_addr = 0\<rparr>"

definition make_unique_DescriptorPool :: "handle \<Rightarrow> 'l \<Rightarrow> 'l heap \<Rightarrow> addr \<times> 'l heap" where
  "make_unique_DescriptorPool dev layout hp =
     (next_addr hp,
      hp\<lparr>pool_objs := pool_objs hp @ [(next_addr hp, \<lparr>dp_device = dev, dp_layout = layout\<rparr>)],
         next_addr := Suc (next_addr hp)\<rparr>)"

definition make_unique_DescriptorSet ::
  "handle \<Rightarrow> addr \<Rightarrow> bufferBindings \<Rightarrow> imageBindings \<Rightarrow> 'l heap \<Rightarrow> addr \<times> 'l heap" where
  "make_unique_DescriptorSet dev pool bufferBindingInfos imageBindingInfos hp =
     (next_addr hp,
      hp\<lparr>set_objs := set_objs hp @ [(next_addr hp,
             \<lparr>ds_device = dev, ds_pool = pool,
              ds_bufferBindingInfos = bufferBindingInfos,
              ds_imageBindingInfos = imageBindingInfos\<rparr>)],
         next_addr := Suc (next_addr hp)\<rparr>)"

subsection \<open>The class\<close>

text \<open>
  Frame.h is not among the sources. Frame.cpp uses the two caches through \<open>operator[]\<close>,
  \<open>find\<close> and \<open>emplace\<close> and walks them with range-for, so each is a map from the
  concurrency index to a map from a hash to an owning pointer. A map is the list of its
  entries, kept in the order in which they were inserted; \<open>find\<close> does not depend on
  that order. The order in which a range-for loop visits the entries is the container's
  own (key order for \<open>std::map\<close>, bucket order for \<open>std::unordered_map\<close>): it is the
  parameter \<open>container_order\<close> of the destructor, which arranges the entries of the
  outer and of an inner map for the visit.
\<close>

type_synonym cache = "(uint32_t \<times> (size_t \<times> addr) list) list"

record container_order =
  outer_order :: "cache \<Rightarrow> cache"
  inner_order :: "(size_t \<times> addr) list \<Rightarrow> (size_t \<times> addr) list"

text \<open>A range-for loop visits every entry of the container once.\<close>

definition visits_each_once :: "container_order \<Rightarrow> bool" where
  "visits_each_once ord \<longleftrightarrow>
     (\<forall>m. mset (outer_order ord m) = mset m) \<and> (\<forall>m. mset (inner_order ord m) = mset m)"

text \<open>The order of \<open>std::map\<close>: ascending keys.\<close>

definition key_order :: container_order where
  "key_order = \<lparr>outer_order = sort_key fst, inner_order = sort_key fst\<rparr>"

text \<open>The objects a cache owns, and the same objects in the order in which the two
  nested loops of the destructor come to them.\<close>

definition cached :: "cache \<Rightarrow> addr list" where
  "cached m = concat (map (\<lambda>map'. map snd (snd map')) m)"

definition visited :: "container_order \<Rightarrow> cache \<Rightarrow> addr list" where
  "visited ord m = concat (map (\<lambda>map'. map snd (inner_order ord (snd map'))) (outer_order ord m))"

record Frame =
  device :: handle
  commandPool :: handle
  commandBuffer :: handle
  fence :: handle
  imageAvailableSemaphore :: handle
  renderFinishedSemaphore :: handle
  descriptorPools :: cache
  descriptorSets :: cache

text \<open>\<open>m[k]\<close>: the entry at \<open>k\<close>, inserted empty when there is none. Where the new entry
  stands in the list is of no consequence: a lookup does not depend on it, and the
  destructor visits the entries in the container's order.\<close>

definition subscript :: "('k \<times> 'v list) list \<Rightarrow> 'k \<Rightarrow> 'v list \<times> ('k \<times> 'v list) list" where
  "subscript m k = (case map_of m k of Some v \<Rightarrow> (v, m) | None \<Rightarrow> ([], m @ [(k, [])]))"

text \<open>\<open>Frame::Frame(VkDevice, uint32_t)\<close> (lines 11 to 38).\<close>

definition Frame_ctor :: "native \<Rightarrow> handle \<Rightarrow> uint32_t \<Rightarrow> vk_state \<Rightarrow> fatal + (Frame \<times> vk_state)" where
  "Frame_ctor drv dev renderQueueFamilyIndex s =
     (case vkCreateCommandPool drv dev VK_COMMAND_POOL_CREATE_RESET_COMMAND_BUFFER_BIT
              renderQueueFamilyIndex s of
        (r1, pool, s1) \<Rightarrow>
      case VK_ASSERT r1 of Inl e \<Rightarrow> Inl e | Inr _ \<Rightarrow>
      case vkAllocateCommandBuffers drv pool VK_COMMAND_BUFFER_LEVEL_PRIMARY s1 of
        (r2, cb, s2) \<Rightarrow>
      case VK_ASSERT r2 of Inl e \<Rightarrow> Inl e | Inr _ \<Rightarrow>
      (let fenceInfo_flags = VK_FENCE_CREATE_SIGNALED_BIT
       in case vkCreateSemaphore drv dev s2 of
            (r3, imageAvailable, s3) \<Rightarrow>
          case VK_ASSERT r3 of Inl e \<Rightarrow> Inl e | Inr _ \<Rightarrow>
          case vkCreateSemaphore drv dev s3 of
            (r4, renderFinished, s4) \<Rightarrow>
          case VK_ASSERT r4 of Inl e \<Rightarrow> Inl e | Inr _ \<Rightarrow>
          case vkCreateFence drv dev fenceInfo_flags s4 of
            (r5, f, s5) \<Rightarrow>
          case VK_ASSERT r5 of Inl e \<Rightarrow> Inl e | Inr _ \<Rightarrow>
          Inr (\<lparr>device = dev, commandPool = pool, commandBuffer = cb, fence = f,
                imageAvailableSemaphore = imageAvailable,
                renderFinishedSemaphore = renderFinished,
                descriptorPools = [], descriptorSets = []\<rparr>, s5)))"

text \<open>\<open>Frame::Frame(Frame &&)\<close> (lines 40 to 53): the new frame and what is left of
  \<open>other\<close>. The initialiser list names the five handles and the device; the two caches
  of the new frame are default-constructed, and those of \<open>other\<close> stay where they are.\<close>

definition Frame_move :: "Frame \<Rightarrow> Frame \<times> Frame" where
  "Frame_move other =
     (\<lparr>device = device other, commandPool = commandPool other,
       commandBuffer = commandBuffer other, fence = fence other,
       imageAvailableSemaphore = imageAvailableSemaphore other,
       renderFinishedSemaphore = renderFinishedSemaphore other,
       descriptorPools = [], descriptorSets = []\<rparr>,
      other\<lparr>commandPool := VK_NULL_HANDLE, commandBuffer := VK_NULL_HANDLE,
            fence := VK_NULL_HANDLE, imageAvailableSemaphore := VK_NULL_HANDLE,
            renderFinishedSemaphore := VK_NULL_HANDLE\<rparr>)"

text \<open>\<open>reset()\<close> on an owning pointer deletes the object it points to.\<close>

definition reset_DescriptorSet :: "addr \<Rightarrow> 'l heap \<times> vk_state \<Rightarrow> 'l heap \<times> vk_state" where
  "reset_DescriptorSet a = (\<lambda>(hp, s).
     (hp\<lparr>set_objs := filter (\<lambda>(a', obj). a' \<noteq> a) (set_objs hp)\<rparr>,
      s\<lparr>destroyed := destroyed s @ [ReleaseDescriptorSet a]\<rparr>))"

definition reset_DescriptorPool :: "addr \<Rightarrow> 'l heap \<times> vk_state \<Rightarrow> 'l heap \<times> vk_state" where
  "reset_DescriptorPool a = (\<lambda>(hp, s).
     (hp\<lparr>pool_objs := filter (\<lambda>(a', obj). a' \<noteq> a) (pool_objs hp)\<rparr>,
      s\<lparr>destroyed := destroyed s @ [ReleaseDescriptorPool a]\<rparr>))"

text \<open>\<open>Frame::~Frame\<close> (lines 55 to 71): two nested loops, then four destroy calls. Each
  loop walks the outer map and, for each of its entries, the inner map, in the order of
  the container.\<close>

definition Frame_dtor :: "container_order \<Rightarrow> Frame \<Rightarrow> 'l heap \<times> vk_state \<Rightarrow> 'l heap \<times> vk_state" where
  "Frame_dtor ord this st =
     (let st1 = fold (\<lambda>map'. fold (\<lambda>i. reset_DescriptorSet (snd i)) (inner_order ord (snd map')))
                  (outer_order ord (descriptorSets this)) st;
          st2 = fold (\<lambda>map'. fold (\<lambda>i. reset_DescriptorPool (snd i)) (inner_order ord (snd map')))
                  (outer_order ord (descriptorPools this)) st1;
          s3 = vkDestroyFence (fence this) (snd st2);
          s4 = vkDestroySemaphore (renderFinishedSemaphore this) s3;
          s5 = vkDestroySemaphore (imageAvailableSemaphore this) s4;
          s6 = vkDestroyCommandPool (commandPool this) s5
      in (fst st2, s6))"

text \<open>\<open>Frame::getDescriptorPool\<close> (lines 93 to 108).\<close>

definition getDescriptorPool ::
  "'l VkHash \<Rightarrow> uint32_t \<Rightarrow> 'l \<Rightarrow> Frame \<times> 'l heap \<Rightarrow> addr \<times> Frame \<times> 'l heap" where
  "getDescriptorPool H concurrencyIndex layout = (\<lambda>(this, hp).
     (let hash = hash_value H layout;
          (descriptorPoolMap, outer) = subscript (descriptorPools this) concurrencyIndex
      in case map_of descriptorPoolMap hash of
           Some p \<Rightarrow> (p, this\<lparr>descriptorPools := outer\<rparr>, hp)
         | None \<Rightarrow>
             (let (p, hp') = make_unique_DescriptorPool (device this) layout hp
              in (p, this\<lparr>descriptorPools :=
                          AList.update concurrencyIndex (descriptorPoolMap @ [(hash, p)]) outer\<rparr>,
                  hp'))))"

text \<open>The key of the set cache: the hash of the layout, extended with every buffer
  binding and then every image binding, in key order (lines 117 to 123).\<close>

definition set_hash :: "'l VkHash \<Rightarrow> 'l \<Rightarrow> bufferBindings \<Rightarrow> imageBindings \<Rightarrow> size_t" where
  "set_hash H layout bufferBindingInfos imageBindingInfos =
     foldl (hash_combine_image H)
       (foldl (hash_combine_buffer H) (hash_value H layout) (map snd bufferBindingInfos))
       (map snd imageBindingInfos)"

text \<open>\<open>Frame::getDescriptorSet\<close> (lines 110 to 137).\<close>

definition getDescriptorSet ::
  "'l VkHash \<Rightarrow> uint32_t \<Rightarrow> 'l \<Rightarrow> bufferBindings \<Rightarrow> imageBindings \<Rightarrow> Frame \<times> 'l heap
     \<Rightarrow> addr \<times> Frame \<times> 'l heap" where
  "getDescriptorSet H concurrencyIndex layout bufferBindingInfos imageBindingInfos = (\<lambda>(this, hp).
     (let hash = set_hash H layout bufferBindingInfos imageBindingInfos;
          (descriptorSetMap, outer) = subscript (descriptorSets this) concurrencyIndex;
          this1 = this\<lparr>descriptorSets := outer\<rparr>
      in case map_of descriptorSetMap hash of
           Some a \<Rightarrow> (a, this1, hp)
         | None \<Rightarrow>
             (let (pool, this2, hp2) = getDescriptorPool H concurrencyIndex layout (this1, hp);
                  (a, hp3) = make_unique_DescriptorSet (device this2) pool
                               bufferBindingInfos imageBindingInfos hp2
              in (a, this2\<lparr>descriptorSets :=
                           AList.update concurrencyIndex (descriptorSetMap @ [(hash, a)])
                             (descriptorSets this2)\<rparr>,
                  hp3))))"

subsection \<open>Reading the caches, and runs of requests\<close>

text \<open>Looking a hash up under a concurrency index, as \<open>find\<close> on the inner map does.\<close>

definition lookup2 :: "cache \<Rightarrow> uint32_t \<Rightarrow> size_t \<Rightarrow> addr option" where
  "lookup2 m c k = (case map_of m c of None \<Rightarrow> None | Some inner \<Rightarrow> map_of inner k)"

definition pool_at :: "Frame \<Rightarrow> uint32_t \<Rightarrow> size_t \<Rightarrow> addr option" where
  "pool_at F = lookup2 (descriptorPools F)"

definition set_at :: "Frame \<Rightarrow> uint32_t \<Rightarrow> size_t \<Rightarrow> addr option" where
  "set_at F = lookup2 (descriptorSets F)"


text \<open>What \<open>operator[]\<close> followed by \<open>emplace\<close> of a new key does to a cache.\<close>

definition cache_insert :: "cache \<Rightarrow> uint32_t \<Rightarrow> size_t \<Rightarrow> addr \<Rightarrow> cache" where
  "cache_insert m c k a =
     (case subscript m c of (inner, outer) \<Rightarrow> AList.update c (inner @ [(k, a)]) outer)"

datatype 'l request =
    GetDescriptorPool uint32_t 'l
  | GetDescriptorSet uint32_t 'l bufferBindings imageBindings

fun perform :: "'l VkHash \<Rightarrow> 'l request \<Rightarrow> Frame \<times> 'l heap \<Rightarrow> addr \<times> Frame \<times> 'l heap" where
  "perform H (GetDescriptorPool c layout) st = getDescriptorPool H c layout st"
| "perform H (GetDescriptorSet c layout bs is) st = getDescriptorSet H c layout bs is st"

fun run :: "'l VkHash \<Rightarrow> 'l request list \<Rightarrow> Frame \<times> 'l heap \<Rightarrow> addr list \<times> Frame \<times> 'l heap" where
  "run H [] st = ([], st)"
| "run H (r # rs) st =
     (case perform H r st of (a, st') \<Rightarrow>
      case run H rs st' of (as, st'') \<Rightarrow> (a # as, st''))"

fun slot_of :: "'l request \<Rightarrow> uint32_t" where
  "slot_of (GetDescriptorPool c layout) = c"
| "slot_of (GetDescriptorSet c layout bs is) = c"

text \<open>The cache entry a request reads or makes: its answer is recorded there.\<close>

fun recorded :: "'l VkHash \<Rightarrow> Frame \<Rightarrow> 'l request \<Rightarrow> addr \<Rightarrow> bool" where
  "recorded H F (GetDescriptorPool c layout) a = (pool_at F c (hash_value H layout) = Some a)"
| "recorded H F (GetDescriptorSet c layout bs is) a = (set_at F c (set_hash H layout bs is) = Some a)"

text \<open>The frame that \<open>Frame_ctor\<close> builds on a device without objects, and a hash used
  in the concrete runs (layouts are numbers there).\<close>

definition fresh_frame :: Frame where
  "fresh_frame =
     \<lparr>device = 1, commandPool = 1, commandBuffer = 2, fence = 5,
      imageAvailableSemaphore = 3, renderFinishedSemaphore = 4,
      descriptorPools = [], descriptorSets = []\<rparr>"

definition example_hash :: "nat VkHash" where
  "example_hash =
     \<lparr>hash_value = (\<lambda>layout. of_nat layout),
      hash_combine_buffer = (\<lambda>seed info. seed * 31 + dbi_buffer info),
      hash_combine_image = (\<lambda>seed info. seed * 31 + dii_imageView info)\<rparr>"

definition a_buffer_binding :: bufferBindings where
  "a_buffer_binding = [(0, \<lparr>dbi_buffer = 9, dbi_offset = 0, dbi_range = 48\<rparr>)]"

definition other_buffer_binding :: bufferBindings where
  "other_buffer_binding = [(0, \<lparr>dbi_buffer = 10, dbi_offset = 0, dbi_range = 48\<rparr>)]"

text \<open>A frame and a heap after use: concurrency index 1 was served first, then index 0.\<close>

definition used_state :: "Frame \<times> nat heap" where
  "used_state =
     snd (run example_hash
            [GetDescriptorSet 1 7 a_buffer_binding [], GetDescriptorSet 0 7 a_buffer_binding []]
            (fresh_frame, empty_heap))"

subsection \<open>Invariants of the caches\<close>

definition keys_distinct :: "cache \<Rightarrow> bool" where
  "keys_distinct m \<longleftrightarrow> (\<forall>c inner. map_of m c = Some inner \<longrightarrow> distinct (map fst inner))"

text \<open>
  Every cached address has been handed out, no address is cached twice, a cached set
  was allocated from a pool cached under the same concurrency index, and the heap holds
  no set at an address not yet handed out.
\<close>

definition cache_inv :: "Frame \<Rightarrow> 'l heap \<Rightarrow> bool" where
  "cache_inv F hp \<longleftrightarrow>
     keys_distinct (descriptorPools F) \<and> keys_distinct (descriptorSets F)
     \<and> (\<forall>c k a. pool_at F c k = Some a \<longrightarrow> a < next_addr hp)
     \<and> (\<forall>c k a. set_at F c k = Some a \<longrightarrow> a < next_addr hp)
     \<and> (\<forall>c k c' k' a. pool_at F c k = Some a \<longrightarrow> pool_at F c' k' = Some a \<longrightarrow> c = c' \<and> k = k')
     \<and> (\<forall>c k c' k' a. set_at F c k = Some a \<longrightarrow> set_at F c' k' = Some a \<longrightarrow> c = c' \<and> k = k')
     \<and> (\<forall>c k c' k' a. pool_at F c k = Some a \<longrightarrow> set_at F c' k' \<noteq> Some a)
     \<and> (\<forall>c k a. set_at F c k = Some a \<longrightarrow>
           (\<exists>ds. map_of (set_objs hp) a = Some ds \<and> (\<exists>k'. pool_at F c k' = Some (ds_pool ds))))
     \<and> (\<forall>a \<in> fst ` set (set_objs hp). a < next_addr hp)"

text \<open>The keys (concurrency index and hash) under which a cache holds an object.\<close>

definition pool_keys :: "Frame \<Rightarrow> (uint32_t \<times> size_t) set" where
  "pool_keys F = {(c, k). pool_at F c k \<noteq> None}"

definition set_keys :: "Frame \<Rightarrow> (uint32_t \<times> size_t) set" where
  "set_keys F = {(c, k). set_at F c k \<noteq> None}"

definition extends :: "Frame \<Rightarrow> Frame \<Rightarrow> bool" where
  "extends F F' \<longleftrightarrow>
     (\<forall>c k a. pool_at F c k = Some a \<longrightarrow> pool_at F' c k = Some a)
     \<and> (\<forall>c k a. set_at F c k = Some a \<longrightarrow> set_at F' c k = Some a)"

section \<open>Properties of the allocator\<close>

lemma or_dst_twice:
  "VK_BUFFER_USAGE_TRANSFER_DST_BIT OR (usage OR VK_BUFFER_USAGE_TRANSFER_DST_BIT)
     = usage OR VK_BUFFER_USAGE_TRANSFER_DST_BIT"
  by (simp add: or.commute or.left_commute)

text \<open>The native calls as equations, and the transfer as one: when the seven asserted
  calls succeed the function returns, and the state it leaves is the one below.\<close>

lemma VK_ASSERT_Inr [simp]: "(VK_ASSERT r = Inr u) = (r = VK_SUCCESS)"
  by (simp add: VK_ASSERT_def)

lemma VK_ASSERT_Inl [simp]: "(VK_ASSERT r = Inl e) = (r \<noteq> VK_SUCCESS \<and> e = AssertionFailed r)"
  by (auto simp: VK_ASSERT_def)

lemma fold_execute:
  "fold execute cmds s = s\<lparr>allocations := fold (copy_memory (buffers s)) cmds (allocations s)\<rparr>"
  by (induction cmds arbitrary: s) (simp_all add: execute_def)

lemma vmaCreateBuffer_eq:
  "vmaCreateBuffer drv bi ai s =
     (if result drv (VmaCreateBuffer bi ai) = VK_SUCCESS then
        (VK_SUCCESS, next_handle s + 1, next_handle s + 2,
         s\<lparr>next_handle := next_handle s + 2,
           buffers := (buffers s)(next_handle s + 1 \<mapsto> (bi, next_handle s + 2)),
           allocations := (allocations s)(next_handle s + 2 \<mapsto> (ai, uninitialised drv (bci_size bi)))\<rparr>)
      else (result drv (VmaCreateBuffer bi ai), VK_NULL_HANDLE, VK_NULL_HANDLE, s))"
  by (simp add: vmaCreateBuffer_def new_handle_def Let_def add.commute)

lemma allocateBuffer_eq:
  "allocateBuffer drv n usage props fl s =
     (let bi = \<lparr>bci_size = n, bci_usage = VK_BUFFER_USAGE_TRANSFER_DST_BIT OR usage,
                bci_sharingMode = VK_SHARING_MODE_EXCLUSIVE\<rparr>;
          ai = \<lparr>aci_usage = VMA_MEMORY_USAGE_AUTO, aci_requiredFlags = props, aci_flags = fl\<rparr>
      in if result drv (VmaCreateBuffer bi ai) = VK_SUCCESS then
           Inr ((next_handle s + 1, next_handle s + 2),
             s\<lparr>next_handle := next_handle s + 2,
               buffers := (buffers s)(next_handle s + 1 \<mapsto> (bi, next_handle s + 2)),
               allocations := (allocations s)(next_handle s + 2 \<mapsto> (ai, uninitialised drv n))\<rparr>)
         else Inl (AssertionFailed (result drv (VmaCreateBuffer bi ai))))"
  by (simp add: allocateBuffer_def vmaCreateBuffer_eq Let_def VK_ASSERT_def)


lemma vkAllocateCommandBuffers_eq:
  "vkAllocateCommandBuffers drv pool level s =
     (if result drv (VkAllocateCommandBuffers pool level) = VK_SUCCESS then
        (VK_SUCCESS, next_handle s + 1,
         s\<lparr>next_handle := next_handle s + 1,
           commandBuffers := (commandBuffers s)
             (next_handle s + 1 \<mapsto> \<lparr>cb_pool = pool, cb_state = Initial, cb_commands = []\<rparr>)\<rparr>)
      else (result drv (VkAllocateCommandBuffers pool level), VK_NULL_HANDLE, s))"
  by (simp add: vkAllocateCommandBuffers_def new_handle_def Let_def)

lemma copyBuffer_ok:
  assumes "result drv (VkAllocateCommandBuffers (immediateTransferPool this)
                       VK_COMMAND_BUFFER_LEVEL_PRIMARY) = VK_SUCCESS"
    and "result drv (VkBeginCommandBuffer (next_handle s + 1)
                     VK_COMMAND_BUFFER_USAGE_ONE_TIME_SUBMIT_BIT) = VK_SUCCESS"
    and "result drv (VkEndCommandBuffer (next_handle s + 1)) = VK_SUCCESS"
    and "result drv (VkQueueSubmit (immediateTransferQueue this) (next_handle s + 1)) = VK_SUCCESS"
    and "result drv (VkQueueWaitIdle (immediateTransferQueue this)) = VK_SUCCESS"
  shows "copyBuffer drv this src dst n s =
     Inr (s\<lparr>next_handle := next_handle s + 1,
            allocations := fold (copy_memory (buffers s))
               (pending s (immediateTransferQueue this)
                  @ [CmdCopyBuffer src dst \<lparr>srcOffset = 0, dstOffset = 0, copy_size = n\<rparr>])
               (allocations s),
            pending := (pending s)(immediateTransferQueue this := []),
            commandBuffers := (commandBuffers s)(next_handle s + 1 := None)\<rparr>)"
  using assms
  by (simp add: copyBuffer_def vkAllocateCommandBuffers_eq vkBeginCommandBuffer_def
      vkCmdCopyBuffer_def vkEndCommandBuffer_def vkQueueSubmit_def vkQueueWaitIdle_def
      vkFreeCommandBuffers_def Let_def fold_execute VK_ASSERT_def del: fold_append)






lemma vmaCopyMemoryToAllocation_eq:
  "snd (vmaCopyMemoryToAllocation drv d a 0 n s) =
     (if result drv (VmaCopyMemoryToAllocation a 0 n) = VK_SUCCESS then
        (case allocations s a of
           None \<Rightarrow> s
         | Some (info, bytes) \<Rightarrow> s\<lparr>allocations := (allocations s)(a \<mapsto> (info, overwrite n d bytes))\<rparr>)
      else s)"
  by (simp add: vmaCopyMemoryToAllocation_def Let_def split: option.splits)

lemma transfer_eq:
  assumes ok: "\<forall>c \<in> set (asserted_calls this fl n usage s). result drv c = VK_SUCCESS"
  shows "allocateDeviceLocalBufferAndTransfer drv this fl data n usage s =
     Inr ((next_handle s + 1, next_handle s + 2),
       s\<lparr>next_handle := next_handle s + 5,
         buffers := (buffers s)
           (next_handle s + 1 \<mapsto>
              (\<lparr>bci_size = n, bci_usage = usage OR VK_BUFFER_USAGE_TRANSFER_DST_BIT,
                bci_sharingMode = VK_SHARING_MODE_EXCLUSIVE\<rparr>, next_handle s + 2),
            next_handle s + 3 := None),
         allocations :=
           (fold (copy_memory ((buffers s)
               (next_handle s + 1 \<mapsto>
                  (\<lparr>bci_size = n, bci_usage = usage OR VK_BUFFER_USAGE_TRANSFER_DST_BIT,
                    bci_sharingMode = VK_SHARING_MODE_EXCLUSIVE\<rparr>, next_handle s + 2),
                next_handle s + 3 \<mapsto>
                  (\<lparr>bci_size = n,
                    bci_usage = VK_BUFFER_USAGE_TRANSFER_DST_BIT OR VK_BUFFER_USAGE_TRANSFER_SRC_BIT,
                    bci_sharingMode = VK_SHARING_MODE_EXCLUSIVE\<rparr>, next_handle s + 4))))
              (pending s (immediateTransferQueue this)
                 @ [CmdCopyBuffer (next_handle s + 3) (next_handle s + 1)
                      \<lparr>srcOffset = 0, dstOffset = 0, copy_size = n\<rparr>])
              ((allocations s)
                 (next_handle s + 2 \<mapsto>
                    (\<lparr>aci_usage = VMA_MEMORY_USAGE_AUTO,
                      aci_requiredFlags = VK_MEMORY_PROPERTY_DEVICE_LOCAL_BIT, aci_flags = fl\<rparr>,
                     uninitialised drv n),
                  next_handle s + 4 \<mapsto>
                    (\<lparr>aci_usage = VMA_MEMORY_USAGE_AUTO,
                      aci_requiredFlags = VK_MEMORY_PROPERTY_HOST_VISIBLE_BIT
                                            OR VK_MEMORY_PROPERTY_HOST_COHERENT_BIT,
                      aci_flags = VMA_ALLOCATION_CREATE_HOST_ACCESS_SEQUENTIAL_WRITE_BIT\<rparr>,
                     if result drv (host_copy_call n s) = VK_SUCCESS
                     then overwrite n data (uninitialised drv n) else uninitialised drv n))))
           (next_handle s + 4 := None),
         pending := (pending s)(immediateTransferQueue this := []),
         commandBuffers := (commandBuffers s)(next_handle s + 5 := None)\<rparr>)"
  using ok
  by (simp add: asserted_calls_def host_copy_call_def allocateDeviceLocalBufferAndTransfer_def
      allocateBuffer_eq copyBuffer_ok vmaCopyMemoryToAllocation_eq vmaDestroyBuffer_def Let_def
      or_dst_twice add.commute del: fold_append)









text \<open>Submission alone copies nothing: the memory changes when the wait on the queue
  returns.\<close>

lemma submit_does_not_copy:
  "allocations (snd (vkQueueSubmit drv q cb s)) = allocations s"
  by (simp add: vkQueueSubmit_def Let_def split: option.splits)








text \<open>With a driver that accepts a buffer of size 0, the empty payload goes through:
  whether the call fails on it is decided by the allocator, not by the function.\<close>

lemma transfer_empty_payload_with_willing_allocator:
  "\<exists>s'. allocateDeviceLocalBufferAndTransfer all_succeed the_allocator 0 [] 0
            VK_BUFFER_USAGE_VERTEX_BUFFER_BIT empty_vk_state = Inr ((1, 2), s')
         \<and> contents s' 1 = Some []"
proof -
  have ok: "\<forall>c \<in> set (asserted_calls the_allocator 0 0 VK_BUFFER_USAGE_VERTEX_BUFFER_BIT empty_vk_state).
      result all_succeed c = VK_SUCCESS"
    by (simp add: all_succeed_def)
  show ?thesis unfolding transfer_eq [OF ok]
    by (simp add: empty_vk_state_def contents_def)
qed

text \<open>
  Claim C4, at the input where it fails: \<open>vmaCopyMemoryToAllocation\<close> is the one native
  call with a result that does not stand inside \<open>VK_ASSERT\<close>. When it reports
  \<open>VK_ERROR_MEMORY_MAP_FAILED\<close>, the function goes on, copies the staging buffer as
  it is, and returns normally with a destination buffer that does not hold the payload
  \<open>[1, 2, 3]\<close>.
\<close>

theorem unchecked_host_copy_returns_normally:
  "result map_fails (VmaCopyMemoryToAllocation 4 0 3) = VK_ERROR_MEMORY_MAP_FAILED
   \<and> VK_ERROR_MEMORY_MAP_FAILED \<noteq> VK_SUCCESS
   \<and> (\<exists>s'. allocateDeviceLocalBufferAndTransfer map_fails the_allocator 0 [1, 2, 3] 3
              VK_BUFFER_USAGE_VERTEX_BUFFER_BIT empty_vk_state = Inr ((1, 2), s')
           \<and> contents s' 1 = Some [0, 0, 0])"
proof -
  have ok: "\<forall>c \<in> set (asserted_calls the_allocator 0 3 VK_BUFFER_USAGE_VERTEX_BUFFER_BIT empty_vk_state).
      result map_fails c = VK_SUCCESS"
    by (simp add: asserted_calls_def map_fails_def)
  have "\<exists>s'. allocateDeviceLocalBufferAndTransfer map_fails the_allocator 0 [1, 2, 3] 3
              VK_BUFFER_USAGE_VERTEX_BUFFER_BIT empty_vk_state = Inr ((1, 2), s')
           \<and> contents s' 1 = Some [0, 0, 0]"
    unfolding transfer_eq [OF ok]
    by (simp add: empty_vk_state_def contents_def host_copy_call_def map_fails_def
        VK_ERROR_MEMORY_MAP_FAILED_def VK_SUCCESS_def overwrite_def numeral_3_eq_3)
  then show ?thesis
    by (simp add: map_fails_def VK_ERROR_MEMORY_MAP_FAILED_def VK_SUCCESS_def)
qed

text \<open>
  Claim C7: for every size, usage, memory properties and allocation flags,
  \<open>allocateBuffer\<close> asks for a buffer whose usage is the requested usage OR-ed with the
  transfer-destination bit. Either the allocator refuses that request and the call
  aborts, or the buffer returned has exactly that usage, so the transfer-destination
  bit is set in it whether or not the caller asked for it.
\<close>

theorem allocateBuffer_adds_transfer_dst:
  "case allocateBuffer drv n usage properties allocFlags s of
     Inl e \<Rightarrow>
       result drv (VmaCreateBuffer
            \<lparr>bci_size = n, bci_usage = VK_BUFFER_USAGE_TRANSFER_DST_BIT OR usage,
             bci_sharingMode = VK_SHARING_MODE_EXCLUSIVE\<rparr>
            \<lparr>aci_usage = VMA_MEMORY_USAGE_AUTO, aci_requiredFlags = properties,
             aci_flags = allocFlags\<rparr>) \<noteq> VK_SUCCESS
   | Inr ((buffer, allocation), s') \<Rightarrow>
       (\<exists>info. buffers s' buffer = Some (info, allocation)
          \<and> bci_usage info = usage OR VK_BUFFER_USAGE_TRANSFER_DST_BIT
          \<and> bci_usage info AND VK_BUFFER_USAGE_TRANSFER_DST_BIT = VK_BUFFER_USAGE_TRANSFER_DST_BIT)"
  by (simp add: allocateBuffer_def vmaCreateBuffer_def new_handle_def Let_def VK_ASSERT_def or.commute)

theorem allocateBuffer_adds_transfer_dst_witness:
  "\<exists>s' info. allocateBuffer all_succeed 16 VK_BUFFER_USAGE_VERTEX_BUFFER_BIT
        VK_MEMORY_PROPERTY_DEVICE_LOCAL_BIT 0 empty_vk_state = Inr ((1, 2), s')
     \<and> buffers s' 1 = Some (info, 2) \<and> bci_usage info = 0x82"
  using allocateBuffer_adds_transfer_dst [of all_succeed 16 VK_BUFFER_USAGE_VERTEX_BUFFER_BIT
      VK_MEMORY_PROPERTY_DEVICE_LOCAL_BIT 0 empty_vk_state]
  by (simp add: allocateBuffer_def vmaCreateBuffer_def new_handle_def Let_def VK_ASSERT_def
      all_succeed_def empty_vk_state_def VK_BUFFER_USAGE_VERTEX_BUFFER_BIT_def
      VK_BUFFER_USAGE_TRANSFER_DST_BIT_def)


section \<open>Properties of a frame\<close>

subsection \<open>Construction, move and teardown\<close>

text \<open>
  Claim C9: a frame that has been constructed holds a fence created with the signaled
  bit in its create flags; the fence is signaled, and a wait on it returns at once.
\<close>

theorem ctor_fence_signaled:
  "Frame_ctor drv dev q s = Inr (F, s') \<Longrightarrow>
     result drv (VkCreateFence dev VK_FENCE_CREATE_SIGNALED_BIT) = VK_SUCCESS
     \<and> fences s' (fence F) = Some True \<and> vkWaitForFences s' (fence F) = Some VK_SUCCESS"
  by (auto simp: Frame_ctor_def vkCreateCommandPool_def vkAllocateCommandBuffers_def
      vkCreateSemaphore_def vkCreateFence_def new_handle_def Let_def VK_ASSERT_def
      vkWaitForFences_def VK_FENCE_CREATE_SIGNALED_BIT_def
      split: if_splits)

theorem ctor_fence_signaled_witness:
  "\<exists>F s'. Frame_ctor all_succeed 1 0 empty_vk_state = Inr (F, s')
     \<and> fences s' (fence F) = Some True \<and> vkWaitForFences s' (fence F) = Some VK_SUCCESS"
proof -
  obtain F s' where e: "Frame_ctor all_succeed 1 0 empty_vk_state = Inr (F, s')"
    by (simp add: Frame_ctor_def vkCreateCommandPool_def vkAllocateCommandBuffers_def
        vkCreateSemaphore_def vkCreateFence_def new_handle_def Let_def VK_ASSERT_def
        all_succeed_def empty_vk_state_def)
  from ctor_fence_signaled [OF e] e show ?thesis by blast
qed

lemma Frame_ctor_fresh_frame:
  "\<exists>s'. Frame_ctor all_succeed 1 0 empty_vk_state = Inr (fresh_frame, s')"
  by (simp add: Frame_ctor_def vkCreateCommandPool_def vkAllocateCommandBuffers_def
      vkCreateSemaphore_def vkCreateFence_def new_handle_def Let_def VK_ASSERT_def
      all_succeed_def empty_vk_state_def fresh_frame_def)

text \<open>What the two loops of the destructor do to the heap and to the log.\<close>

lemma reset_sets_inner:
  "fold (\<lambda>i. reset_DescriptorSet (snd i)) m (hp, s) =
     (hp\<lparr>set_objs := filter (\<lambda>(a', obj). a' \<notin> set (map snd m)) (set_objs hp)\<rparr>,
      s\<lparr>destroyed := destroyed s @ map (ReleaseDescriptorSet \<circ> snd) m\<rparr>)"
proof (induction m arbitrary: hp s)
  case Nil
  then show ?case by simp
next
  case (Cons i m)
  then show ?case
    by (simp add: reset_DescriptorSet_def case_prod_unfold conj_commute)
qed

lemma reset_sets:
  "fold (\<lambda>map'. fold (\<lambda>i. reset_DescriptorSet (snd i)) (io (snd map'))) c (hp, s) =
     (hp\<lparr>set_objs := filter (\<lambda>(a', obj). a' \<notin> set (concat (map (\<lambda>map'. map snd (io (snd map'))) c)))
                         (set_objs hp)\<rparr>,
      s\<lparr>destroyed := destroyed s
           @ map ReleaseDescriptorSet (concat (map (\<lambda>map'. map snd (io (snd map'))) c))\<rparr>)"
proof (induction c arbitrary: hp s)
  case Nil
  then show ?case by simp
next
  case (Cons x c)
  then show ?case
    by (simp add: reset_sets_inner case_prod_unfold conj_commute)
qed

lemma reset_pools_inner:
  "fold (\<lambda>i. reset_DescriptorPool (snd i)) m (hp, s) =
     (hp\<lparr>pool_objs := filter (\<lambda>(a', obj). a' \<notin> set (map snd m)) (pool_objs hp)\<rparr>,
      s\<lparr>destroyed := destroyed s @ map (ReleaseDescriptorPool \<circ> snd) m\<rparr>)"
proof (induction m arbitrary: hp s)
  case Nil
  then show ?case by simp
next
  case (Cons i m)
  then show ?case
    by (simp add: reset_DescriptorPool_def case_prod_unfold conj_commute)
qed

lemma reset_pools:
  "fold (\<lambda>map'. fold (\<lambda>i. reset_DescriptorPool (snd i)) (io (snd map'))) c (hp, s) =
     (hp\<lparr>pool_objs := filter (\<lambda>(a', obj). a' \<notin> set (concat (map (\<lambda>map'. map snd (io (snd map'))) c)))
                          (pool_objs hp)\<rparr>,
      s\<lparr>destroyed := destroyed s
           @ map ReleaseDescriptorPool (concat (map (\<lambda>map'. map snd (io (snd map'))) c))\<rparr>)"
proof (induction c arbitrary: hp s)
  case Nil
  then show ?case by simp
next
  case (Cons x c)
  then show ?case
    by (simp add: reset_pools_inner case_prod_unfold conj_commute)
qed

text \<open>The destructor as one equation.\<close>

lemma Frame_dtor_eq:
  "Frame_dtor ord F (hp, s) =
     (hp\<lparr>set_objs := filter (\<lambda>(a, obj). a \<notin> set (visited ord (descriptorSets F))) (set_objs hp),
         pool_objs := filter (\<lambda>(a, obj). a \<notin> set (visited ord (descriptorPools F))) (pool_objs hp)\<rparr>,
      vkDestroyCommandPool (commandPool F)
        (vkDestroySemaphore (imageAvailableSemaphore F)
          (vkDestroySemaphore (renderFinishedSemaphore F)
            (vkDestroyFence (fence F)
              (s\<lparr>destroyed := destroyed s
                    @ map ReleaseDescriptorSet (visited ord (descriptorSets F))
                    @ map ReleaseDescriptorPool (visited ord (descriptorPools F))\<rparr>)))))"
  by (simp add: Frame_dtor_def Let_def reset_sets reset_pools visited_def)

text \<open>A visit in the container's order comes to every cached object once.\<close>

lemma mset_concat_map: "mset (concat (map f xs)) = (\<Sum>x\<in>#mset xs. mset (f x))"
  by (induction xs) simp_all

lemma mset_visited:
  assumes "visits_each_once ord"
  shows "mset (visited ord m) = mset (cached m)"
proof -
  have i: "\<And>x. mset (map snd (inner_order ord x)) = mset (map snd x)"
    using assms by (simp add: visits_each_once_def)
  have o: "mset (outer_order ord m) = mset m"
    using assms by (simp add: visits_each_once_def)
  have "mset (visited ord m) = (\<Sum>x\<in>#mset (outer_order ord m). mset (map snd (inner_order ord (snd x))))"
    unfolding visited_def by (rule mset_concat_map)
  also have "\<dots> = (\<Sum>x\<in>#mset m. mset (map snd (snd x)))"
    unfolding o i ..
  also have "\<dots> = mset (cached m)"
    unfolding cached_def by (rule mset_concat_map [symmetric])
  finally show ?thesis .
qed

lemma set_visited: "visits_each_once ord \<Longrightarrow> set (visited ord m) = set (cached m)"
  using mset_visited [of ord m] by (metis set_mset_mset)

lemma visits_each_once_key_order: "visits_each_once key_order"
  by (simp add: visits_each_once_def key_order_def)

text \<open>The frame and the heap of \<open>used_state\<close>, computed.\<close>

lemma used_state_eq:
  "used_state =
     (fresh_frame\<lparr>descriptorPools := [(1, [(7, 0)]), (0, [(7, 2)])],
                  descriptorSets := [(1, [(226, 1)]), (0, [(226, 3)])]\<rparr>,
      \<lparr>pool_objs = [(0, \<lparr>dp_device = 1, dp_layout = 7\<rparr>), (2, \<lparr>dp_device = 1, dp_layout = 7\<rparr>)],
       set_objs = [(1, \<lparr>ds_device = 1, ds_pool = 0, ds_bufferBindingInfos = a_buffer_binding,
                        ds_imageBindingInfos = []\<rparr>),
                   (3, \<lparr>ds_device = 1, ds_pool = 2, ds_bufferBindingInfos = a_buffer_binding,
                        ds_imageBindingInfos = []\<rparr>)],
       next_addr = 4\<rparr>)"
  by (simp add: used_state_def getDescriptorSet_def getDescriptorPool_def subscript_def
      make_unique_DescriptorSet_def make_unique_DescriptorPool_def set_hash_def example_hash_def
      a_buffer_binding_def fresh_frame_def empty_heap_def Let_def)

text \<open>
  Claim C6: whatever the order in which the containers hand out their entries, the
  destructor of a frame releases every cached descriptor set, then every cached
  descriptor pool, and after both it destroys the fence, the render-finished semaphore,
  the image-available semaphore and the command pool, in this order. The log of
  destructions grows by exactly these three runs; each cached set and each cached pool
  is released once; afterwards the heap holds none of the cached sets and pools, and
  the device holds neither the fence, nor the two semaphores, nor the command pool, nor
  a command buffer allocated from it (a null handle destroys nothing).
\<close>

theorem dtor_releases_in_dependency_order:
  assumes "visits_each_once ord"
  shows "case Frame_dtor ord F (hp, s) of (hp', s') \<Rightarrow>
      destroyed s' =
         destroyed s
         @ map ReleaseDescriptorSet (visited ord (descriptorSets F))
         @ map ReleaseDescriptorPool (visited ord (descriptorPools F))
         @ [DestroyFence (fence F), DestroySemaphore (renderFinishedSemaphore F),
            DestroySemaphore (imageAvailableSemaphore F), DestroyCommandPool (commandPool F)]
    \<and> mset (visited ord (descriptorSets F)) = mset (cached (descriptorSets F))
    \<and> mset (visited ord (descriptorPools F)) = mset (cached (descriptorPools F))
    \<and> set_objs hp' = filter (\<lambda>(a, obj). a \<notin> set (cached (descriptorSets F))) (set_objs hp)
    \<and> pool_objs hp' = filter (\<lambda>(a, obj). a \<notin> set (cached (descriptorPools F))) (pool_objs hp)
    \<and> fences s' = (\<lambda>h. if h = fence F \<and> h \<noteq> VK_NULL_HANDLE then None else fences s h)
    \<and> semaphores s' =
         (\<lambda>h. if (h = renderFinishedSemaphore F \<or> h = imageAvailableSemaphore F) \<and> h \<noteq> VK_NULL_HANDLE
              then None else semaphores s h)
    \<and> commandPools s' =
         (\<lambda>h. if h = commandPool F \<and> h \<noteq> VK_NULL_HANDLE then None else commandPools s h)
    \<and> commandBuffers s' =
         (\<lambda>cb. case commandBuffers s cb of
                 None \<Rightarrow> None
               | Some b \<Rightarrow> if cb_pool b = commandPool F \<and> commandPool F \<noteq> VK_NULL_HANDLE
                           then None else Some b)"
  using mset_visited [OF assms] set_visited [OF assms]
  by (auto simp: Frame_dtor_eq vkDestroyFence_def vkDestroySemaphore_def vkDestroyCommandPool_def
      Let_def fun_eq_iff split: option.splits)

theorem dtor_releases_in_dependency_order_witness:
  "destroyed (snd (Frame_dtor key_order (fst used_state) (snd used_state, empty_vk_state))) =
     [ReleaseDescriptorSet 3, ReleaseDescriptorSet 1, ReleaseDescriptorPool 2, ReleaseDescriptorPool 0,
      DestroyFence 5, DestroySemaphore 4, DestroySemaphore 3, DestroyCommandPool 1]
   \<and> set_objs (fst (Frame_dtor key_order (fst used_state) (snd used_state, empty_vk_state))) = []
   \<and> pool_objs (fst (Frame_dtor key_order (fst used_state) (snd used_state, empty_vk_state))) = []"
  using dtor_releases_in_dependency_order [OF visits_each_once_key_order,
      where F = "fst used_state" and hp = "snd used_state" and s = empty_vk_state]
  by (simp add: used_state_eq case_prod_unfold visited_def cached_def key_order_def
      empty_vk_state_def fresh_frame_def)

text \<open>
  Claim C10: after a move the command pool, the command buffer, the fence and both
  semaphores of the moved-from frame are null, the new frame holds the handles the old
  one had, and destroying the moved-from frame leaves every fence, semaphore, command
  pool and command buffer of the device as it was: nothing the new frame owns is
  destroyed.
\<close>

theorem moved_from_frame_destroys_nothing:
  "commandPool (snd (Frame_move other)) = VK_NULL_HANDLE
   \<and> commandBuffer (snd (Frame_move other)) = VK_NULL_HANDLE
   \<and> fence (snd (Frame_move other)) = VK_NULL_HANDLE
   \<and> imageAvailableSemaphore (snd (Frame_move other)) = VK_NULL_HANDLE
   \<and> renderFinishedSemaphore (snd (Frame_move other)) = VK_NULL_HANDLE
   \<and> commandPool (fst (Frame_move other)) = commandPool other
   \<and> commandBuffer (fst (Frame_move other)) = commandBuffer other
   \<and> fence (fst (Frame_move other)) = fence other
   \<and> imageAvailableSemaphore (fst (Frame_move other)) = imageAvailableSemaphore other
   \<and> renderFinishedSemaphore (fst (Frame_move other)) = renderFinishedSemaphore other
   \<and> descriptorPools (fst (Frame_move other)) = []
   \<and> descriptorSets (fst (Frame_move other)) = []
   \<and> fences (snd (Frame_dtor ord (snd (Frame_move other)) (hp, s))) = fences s
   \<and> semaphores (snd (Frame_dtor ord (snd (Frame_move other)) (hp, s))) = semaphores s
   \<and> commandPools (snd (Frame_dtor ord (snd (Frame_move other)) (hp, s))) = commandPools s
   \<and> commandBuffers (snd (Frame_dtor ord (snd (Frame_move other)) (hp, s))) = commandBuffers s"
  by (simp add: Frame_move_def Frame_dtor_eq vkDestroyFence_def vkDestroySemaphore_def
      vkDestroyCommandPool_def)

subsection \<open>The descriptor caches\<close>

text \<open>The two caches as maps: what an insertion does to a lookup.\<close>

lemma map_of_cache_insert:
  "map_of (cache_insert m c k a) =
     (map_of m)(c \<mapsto> (case map_of m c of None \<Rightarrow> [] | Some inner \<Rightarrow> inner) @ [(k, a)])"
  by (rule ext) (auto simp: cache_insert_def subscript_def update_conv' map_add_def split: option.splits)

lemma lookup2_cache_insert:
  "lookup2 m c k = None \<Longrightarrow>
     lookup2 (cache_insert m c k a) c' k' = (if c' = c \<and> k' = k then Some a else lookup2 m c' k')"
  by (auto simp: lookup2_def map_of_cache_insert map_add_def split: option.splits)

lemma keys_distinct_cache_insert:
  assumes "keys_distinct m" and "lookup2 m c k = None"
  shows "keys_distinct (cache_insert m c k a)"
  unfolding keys_distinct_def
proof (intro allI impI)
  fix c' inner
  assume h: "map_of (cache_insert m c k a) c' = Some inner"
  show "distinct (map fst inner)"
  proof (cases "c' = c")
    case False
    with h have "map_of m c' = Some inner" by (simp add: map_of_cache_insert)
    with assms(1) show ?thesis by (simp add: keys_distinct_def)
  next
    case True
    show ?thesis
    proof (cases "map_of m c")
      case None
      with h True show ?thesis by (auto simp: map_of_cache_insert)
    next
      case (Some old)
      with assms(1) have d: "distinct (map fst old)" by (simp add: keys_distinct_def)
      from Some assms(2) have "map_of old k = None" by (simp add: lookup2_def)
      then have "k \<notin> fst ` set old" by (simp add: map_of_eq_None_iff)
      with d h True Some show ?thesis by (auto simp: map_of_cache_insert)
    qed
  qed
qed


text \<open>The two functions in terms of the lookups: a hit returns what is cached and
  changes nothing, a miss makes one object at the next address and caches it.\<close>

lemma getDescriptorPool_eq:
  "getDescriptorPool H c l (F, hp) =
     (case pool_at F c (hash_value H l) of
        Some p \<Rightarrow> (p, F, hp)
      | None \<Rightarrow>
          (next_addr hp,
           F\<lparr>descriptorPools := cache_insert (descriptorPools F) c (hash_value H l) (next_addr hp)\<rparr>,
           hp\<lparr>pool_objs := pool_objs hp @ [(next_addr hp, \<lparr>dp_device = device F, dp_layout = l\<rparr>)],
              next_addr := Suc (next_addr hp)\<rparr>))"
  by (auto simp: getDescriptorPool_def pool_at_def lookup2_def cache_insert_def subscript_def
      make_unique_DescriptorPool_def Let_def split: option.splits)

lemma getDescriptorSet_eq:
  "getDescriptorSet H c l bs is (F, hp) =
     (case set_at F c (set_hash H l bs is) of
        Some a \<Rightarrow> (a, F, hp)
      | None \<Rightarrow>
          (case getDescriptorPool H c l (F, hp) of (p, F1, hp1) \<Rightarrow>
             (next_addr hp1,
              F1\<lparr>descriptorSets := cache_insert (descriptorSets F) c (set_hash H l bs is) (next_addr hp1)\<rparr>,
              hp1\<lparr>set_objs := set_objs hp1 @ [(next_addr hp1,
                     \<lparr>ds_device = device F, ds_pool = p, ds_bufferBindingInfos = bs,
                      ds_imageBindingInfos = is\<rparr>)],
                  next_addr := Suc (next_addr hp1)\<rparr>)))"
  by (auto simp: getDescriptorSet_def set_at_def lookup2_def cache_insert_def subscript_def
      make_unique_DescriptorSet_def Let_def getDescriptorPool_def make_unique_DescriptorPool_def
      split: option.splits prod.splits)


text \<open>The invariant holds for a frame with empty caches and is kept by every request.\<close>

lemma cache_invD:
  assumes "cache_inv F hp"
  shows "pool_at F c k = Some a \<Longrightarrow> a < next_addr hp"
    and "set_at F c k = Some a \<Longrightarrow> a < next_addr hp"
    and "pool_at F c k = Some a \<Longrightarrow> pool_at F c' k' = Some a \<Longrightarrow> c = c' \<and> k = k'"
    and "set_at F c k = Some a \<Longrightarrow> set_at F c' k' = Some a \<Longrightarrow> c = c' \<and> k = k'"
    and "pool_at F c k = Some a \<Longrightarrow> set_at F c' k' \<noteq> Some a"
    and "set_at F c k = Some a \<Longrightarrow>
           \<exists>ds. map_of (set_objs hp) a = Some ds \<and> (\<exists>k'. pool_at F c k' = Some (ds_pool ds))"
    and "a \<in> fst ` set (set_objs hp) \<Longrightarrow> a < next_addr hp"
proof -
  show "a \<in> fst ` set (set_objs hp) \<Longrightarrow> a < next_addr hp"
    using assms unfolding cache_inv_def by meson
  show "pool_at F c k = Some a \<Longrightarrow> a < next_addr hp"
    using assms unfolding cache_inv_def by meson
  show "set_at F c k = Some a \<Longrightarrow> a < next_addr hp"
    using assms unfolding cache_inv_def by meson
  show "pool_at F c k = Some a \<Longrightarrow> pool_at F c' k' = Some a \<Longrightarrow> c = c' \<and> k = k'"
    using assms unfolding cache_inv_def by meson
  show "set_at F c k = Some a \<Longrightarrow> set_at F c' k' = Some a \<Longrightarrow> c = c' \<and> k = k'"
    using assms unfolding cache_inv_def by meson
  show "pool_at F c k = Some a \<Longrightarrow> set_at F c' k' \<noteq> Some a"
    using assms unfolding cache_inv_def by meson
  show "set_at F c k = Some a \<Longrightarrow>
           \<exists>ds. map_of (set_objs hp) a = Some ds \<and> (\<exists>k'. pool_at F c k' = Some (ds_pool ds))"
    using assms unfolding cache_inv_def by meson
qed

lemma cache_inv_new_pool:
  assumes inv: "cache_inv F hp" and miss: "pool_at F c h = None"
  shows "cache_inv (F\<lparr>descriptorPools := cache_insert (descriptorPools F) c h (next_addr hp)\<rparr>)
           (hp\<lparr>pool_objs := pool_objs hp @ [(next_addr hp, obj)], next_addr := Suc (next_addr hp)\<rparr>)"
proof -
  let ?F = "F\<lparr>descriptorPools := cache_insert (descriptorPools F) c h (next_addr hp)\<rparr>"
  have p: "\<And>c' k'. pool_at ?F c' k' = (if c' = c \<and> k' = h then Some (next_addr hp) else pool_at F c' k')"
    using miss by (simp add: pool_at_def lookup2_cache_insert)
  have s: "set_at ?F = set_at F" by (simp add: set_at_def)
  have kd: "keys_distinct (descriptorPools ?F)"
    using inv miss by (simp add: cache_inv_def pool_at_def keys_distinct_cache_insert)
  note b1 = cache_invD(1) [OF inv] and b2 = cache_invD(2) [OF inv]
    and i1 = cache_invD(3) [OF inv] and i2 = cache_invD(4) [OF inv]
    and x = cache_invD(5) [OF inv] and l = cache_invD(6) [OF inv]
    and hb = cache_invD(7) [OF inv]
  have nb1: "\<And>c' k'. pool_at F c' k' \<noteq> Some (next_addr hp)" using b1 by fastforce
  have nb2: "\<And>c' k'. set_at F c' k' \<noteq> Some (next_addr hp)" using b2 by fastforce
  show ?thesis
    unfolding cache_inv_def
  proof (intro conjI allI impI ballI)
    show "keys_distinct (descriptorPools ?F)" by (rule kd)
    show "keys_distinct (descriptorSets ?F)" using inv by (simp add: cache_inv_def)
  next
    fix c' k a assume "pool_at ?F c' k = Some a"
    then show "a < next_addr (hp\<lparr>pool_objs := pool_objs hp @ [(next_addr hp, obj)], next_addr := Suc (next_addr hp)\<rparr>)"
      using b1 by (auto simp: p less_Suc_eq split: if_splits)
  next
    fix c' k a assume "set_at ?F c' k = Some a"
    then show "a < next_addr (hp\<lparr>pool_objs := pool_objs hp @ [(next_addr hp, obj)], next_addr := Suc (next_addr hp)\<rparr>)"
      using b2 by (auto simp: s less_Suc_eq)
  next
    fix c1 k1 c2 k2 a assume "pool_at ?F c1 k1 = Some a" "pool_at ?F c2 k2 = Some a"
    then show "c1 = c2" using i1 by (auto simp: p nb1 split: if_splits)
  next
    fix c1 k1 c2 k2 a assume "pool_at ?F c1 k1 = Some a" "pool_at ?F c2 k2 = Some a"
    then show "k1 = k2" using i1 by (auto simp: p nb1 split: if_splits)
  next
    fix c1 k1 c2 k2 a assume "set_at ?F c1 k1 = Some a" "set_at ?F c2 k2 = Some a"
    then show "c1 = c2" using i2 by (auto simp: s)
  next
    fix c1 k1 c2 k2 a assume "set_at ?F c1 k1 = Some a" "set_at ?F c2 k2 = Some a"
    then show "k1 = k2" using i2 by (auto simp: s)
  next
    fix c1 k1 c2 k2 a assume "pool_at ?F c1 k1 = Some a"
    then show "set_at ?F c2 k2 \<noteq> Some a" using x by (auto simp: p s nb2 split: if_splits)
  next
    fix c1 k1 a assume h: "set_at ?F c1 k1 = Some a"
    then have o: "set_at F c1 k1 = Some a" by (simp add: s)
    from l [OF o] obtain ds k' where "map_of (set_objs hp) a = Some ds" "pool_at F c1 k' = Some (ds_pool ds)"
      by blast
    moreover from this(2) miss have "pool_at ?F c1 k' = Some (ds_pool ds)" by (auto simp: p)
    ultimately show "\<exists>ds. map_of (set_objs (hp\<lparr>pool_objs := pool_objs hp @ [(next_addr hp, obj)], next_addr := Suc (next_addr hp)\<rparr>)) a = Some ds
        \<and> (\<exists>k'. pool_at ?F c1 k' = Some (ds_pool ds))"
      by auto
  next
    fix a assume "a \<in> fst ` set (set_objs (hp\<lparr>pool_objs := pool_objs hp @ [(next_addr hp, obj)], next_addr := Suc (next_addr hp)\<rparr>))"
    then show "a < next_addr (hp\<lparr>pool_objs := pool_objs hp @ [(next_addr hp, obj)], next_addr := Suc (next_addr hp)\<rparr>)"
      using hb by (auto simp: less_Suc_eq)
  qed
qed

lemma cache_inv_new_set:
  assumes inv: "cache_inv F hp" and miss: "set_at F c h = None"
    and pool: "pool_at F c k0 = Some p"
  shows "cache_inv (F\<lparr>descriptorSets := cache_insert (descriptorSets F) c h (next_addr hp)\<rparr>)
           (hp\<lparr>set_objs := set_objs hp @ [(next_addr hp,
                  \<lparr>ds_device = d, ds_pool = p, ds_bufferBindingInfos = bs, ds_imageBindingInfos = is\<rparr>)],
               next_addr := Suc (next_addr hp)\<rparr>)"
proof -
  let ?F = "F\<lparr>descriptorSets := cache_insert (descriptorSets F) c h (next_addr hp)\<rparr>"
  let ?hp = "hp\<lparr>set_objs := set_objs hp @ [(next_addr hp,
                  \<lparr>ds_device = d, ds_pool = p, ds_bufferBindingInfos = bs, ds_imageBindingInfos = is\<rparr>)],
               next_addr := Suc (next_addr hp)\<rparr>"
  have s: "\<And>c' k'. set_at ?F c' k' = (if c' = c \<and> k' = h then Some (next_addr hp) else set_at F c' k')"
    using miss by (simp add: set_at_def lookup2_cache_insert)
  have p: "pool_at ?F = pool_at F" by (simp add: pool_at_def)
  have kd: "keys_distinct (descriptorSets ?F)"
    using inv miss by (simp add: cache_inv_def set_at_def keys_distinct_cache_insert)
  note b1 = cache_invD(1) [OF inv] and b2 = cache_invD(2) [OF inv]
    and i1 = cache_invD(3) [OF inv] and i2 = cache_invD(4) [OF inv]
    and x = cache_invD(5) [OF inv] and l = cache_invD(6) [OF inv]
    and hb = cache_invD(7) [OF inv]
  have nb1: "\<And>c' k'. pool_at F c' k' \<noteq> Some (next_addr hp)" using b1 by fastforce
  have nb2: "\<And>c' k'. set_at F c' k' \<noteq> Some (next_addr hp)" using b2 by fastforce
  show ?thesis
    unfolding cache_inv_def
  proof (intro conjI allI impI ballI)
    show "keys_distinct (descriptorSets ?F)" by (rule kd)
    show "keys_distinct (descriptorPools ?F)" using inv by (simp add: cache_inv_def)
  next
    fix c' k a assume "pool_at ?F c' k = Some a"
    then show "a < next_addr ?hp" using b1 by (auto simp: p less_Suc_eq)
  next
    fix c' k a assume "set_at ?F c' k = Some a"
    then show "a < next_addr ?hp" using b2 by (auto simp: s less_Suc_eq split: if_splits)
  next
    fix c1 k1 c2 k2 a assume "pool_at ?F c1 k1 = Some a" "pool_at ?F c2 k2 = Some a"
    then show "c1 = c2" using i1 by (auto simp: p)
  next
    fix c1 k1 c2 k2 a assume "pool_at ?F c1 k1 = Some a" "pool_at ?F c2 k2 = Some a"
    then show "k1 = k2" using i1 by (auto simp: p)
  next
    fix c1 k1 c2 k2 a assume "set_at ?F c1 k1 = Some a" "set_at ?F c2 k2 = Some a"
    then show "c1 = c2" using i2 by (auto simp: s nb2 split: if_splits)
  next
    fix c1 k1 c2 k2 a assume "set_at ?F c1 k1 = Some a" "set_at ?F c2 k2 = Some a"
    then show "k1 = k2" using i2 by (auto simp: s nb2 split: if_splits)
  next
    fix c1 k1 c2 k2 a assume "pool_at ?F c1 k1 = Some a"
    then show "set_at ?F c2 k2 \<noteq> Some a" using x by (auto simp: p s nb1 split: if_splits)
  next
    fix c1 k1 a assume h: "set_at ?F c1 k1 = Some a"
    show "\<exists>ds. map_of (set_objs ?hp) a = Some ds \<and> (\<exists>k'. pool_at ?F c1 k' = Some (ds_pool ds))"
    proof (cases "c1 = c \<and> k1 = h")
      case True
      with h have "a = next_addr hp" by (simp add: s)
      moreover have "map_of (set_objs hp) (next_addr hp) = None"
        using hb [of "next_addr hp"] by (auto simp: map_of_eq_None_iff)
      ultimately show ?thesis using True pool by (auto simp: p map_add_def)
    next
      case False
      with h have o: "set_at F c1 k1 = Some a" by (auto simp: s split: if_splits)
      then obtain ds k' where "map_of (set_objs hp) a = Some ds" "pool_at F c1 k' = Some (ds_pool ds)"
        using l by blast
      moreover from o have "a \<noteq> next_addr hp" using nb2 by auto
      ultimately show ?thesis by (auto simp: p map_add_def)
    qed
  next
    fix a assume "a \<in> fst ` set (set_objs ?hp)"
    then show "a < next_addr ?hp" using hb by (auto simp: less_Suc_eq)
  qed
qed


lemma map_of_cache_insert_other:
  "c' \<noteq> c \<Longrightarrow> map_of (cache_insert m c k a) c' = map_of m c'"
  by (simp add: map_of_cache_insert)

lemma getDescriptorPool_step:
  assumes inv: "cache_inv F hp" and call: "getDescriptorPool H c l (F, hp) = (p, F', hp')"
  shows "cache_inv F' hp' \<and> pool_at F' c (hash_value H l) = Some p \<and> extends F F'
     \<and> descriptorSets F' = descriptorSets F \<and> device F' = device F
     \<and> (\<forall>c'. c' \<noteq> c \<longrightarrow> map_of (descriptorPools F') c' = map_of (descriptorPools F) c')"
proof (cases "pool_at F c (hash_value H l)")
  case (Some q)
  with call inv show ?thesis by (simp add: getDescriptorPool_eq extends_def)
next
  case None
  with call have F': "F' = F\<lparr>descriptorPools :=
        cache_insert (descriptorPools F) c (hash_value H l) (next_addr hp)\<rparr>"
    and hp': "hp' = hp\<lparr>pool_objs := pool_objs hp @ [(next_addr hp, \<lparr>dp_device = device F, dp_layout = l\<rparr>)],
              next_addr := Suc (next_addr hp)\<rparr>"
    and p: "p = next_addr hp"
    by (auto simp: getDescriptorPool_eq)
  have pa: "\<And>c' k'. pool_at F' c' k' =
      (if c' = c \<and> k' = hash_value H l then Some (next_addr hp) else pool_at F c' k')"
    using None by (simp add: F' pool_at_def lookup2_cache_insert)
  have "cache_inv F' hp'" unfolding F' hp' by (rule cache_inv_new_pool [OF inv None])
  moreover have "extends F F'" using None by (auto simp: extends_def pa) (simp add: F' set_at_def)
  ultimately show ?thesis by (simp add: pa p) (simp add: F' map_of_cache_insert_other)
qed

lemma getDescriptorSet_step:
  assumes inv: "cache_inv F hp" and call: "getDescriptorSet H c l bs is (F, hp) = (a, F', hp')"
  shows "cache_inv F' hp' \<and> set_at F' c (set_hash H l bs is) = Some a \<and> extends F F'
     \<and> (\<forall>c'. c' \<noteq> c \<longrightarrow> map_of (descriptorPools F') c' = map_of (descriptorPools F) c')
     \<and> (\<forall>c'. c' \<noteq> c \<longrightarrow> map_of (descriptorSets F') c' = map_of (descriptorSets F) c')"
proof (cases "set_at F c (set_hash H l bs is)")
  case (Some q)
  with call inv show ?thesis by (simp add: getDescriptorSet_eq extends_def)
next
  case None
  obtain p F1 hp1 where gp: "getDescriptorPool H c l (F, hp) = (p, F1, hp1)"
    by (cases "getDescriptorPool H c l (F, hp)") auto
  note st = getDescriptorPool_step [OF inv gp]
  from st have inv1: "cache_inv F1 hp1" and pool: "pool_at F1 c (hash_value H l) = Some p"
    and ext: "extends F F1" and ds: "descriptorSets F1 = descriptorSets F" and dev: "device F1 = device F"
    by simp_all
  from ds None have miss1: "set_at F1 c (set_hash H l bs is) = None" by (simp add: set_at_def)
  let ?K = "set_hash H l bs is"
  from call None gp have F': "F' = F1\<lparr>descriptorSets := cache_insert (descriptorSets F1) c ?K (next_addr hp1)\<rparr>"
    and hp': "hp' = hp1\<lparr>set_objs := set_objs hp1 @ [(next_addr hp1,
                     \<lparr>ds_device = device F, ds_pool = p, ds_bufferBindingInfos = bs,
                      ds_imageBindingInfos = is\<rparr>)],
                  next_addr := Suc (next_addr hp1)\<rparr>"
    and a: "a = next_addr hp1"
    by (auto simp: getDescriptorSet_eq ds)
  have sa: "\<And>c' k'. set_at F' c' k' =
      (if c' = c \<and> k' = ?K then Some (next_addr hp1) else set_at F1 c' k')"
    using miss1 by (simp add: F' set_at_def lookup2_cache_insert)
  have pa: "pool_at F' = pool_at F1" by (simp add: F' pool_at_def)
  have "cache_inv F' hp'" unfolding F' hp' by (rule cache_inv_new_set [OF inv1 miss1 pool])
  moreover have "extends F1 F'" using miss1 by (auto simp: extends_def pa sa)
  with ext have "extends F F'" by (auto simp: extends_def)
  moreover have "\<forall>c'. c' \<noteq> c \<longrightarrow> map_of (descriptorPools F') c' = map_of (descriptorPools F) c'"
    using st by (simp add: F')
  moreover have "\<forall>c'. c' \<noteq> c \<longrightarrow> map_of (descriptorSets F') c' = map_of (descriptorSets F) c'"
    by (simp add: F' ds map_of_cache_insert_other)
  ultimately show ?thesis by (simp add: sa a)
qed

lemma perform_step:
  assumes inv: "cache_inv F hp" and call: "perform H r (F, hp) = (a, F', hp')"
  shows "cache_inv F' hp' \<and> recorded H F' r a \<and> extends F F'
     \<and> (\<forall>c'. c' \<noteq> slot_of r \<longrightarrow> map_of (descriptorPools F') c' = map_of (descriptorPools F) c')
     \<and> (\<forall>c'. c' \<noteq> slot_of r \<longrightarrow> map_of (descriptorSets F') c' = map_of (descriptorSets F) c')"
proof (cases r)
  case (GetDescriptorPool c l)
  with call have "getDescriptorPool H c l (F, hp) = (a, F', hp')" by simp
  from getDescriptorPool_step [OF inv this] GetDescriptorPool show ?thesis by simp
next
  case (GetDescriptorSet c l bs "is")
  with call have "getDescriptorSet H c l bs is (F, hp) = (a, F', hp')" by simp
  from getDescriptorSet_step [OF inv this] GetDescriptorSet show ?thesis by simp
qed

lemma recorded_extends: "recorded H F r a \<Longrightarrow> extends F F' \<Longrightarrow> recorded H F' r a"
  by (cases r) (auto simp: extends_def)

lemma extends_trans: "extends F F' \<Longrightarrow> extends F' F'' \<Longrightarrow> extends F F''"
  by (auto simp: extends_def)

lemma extends_refl: "extends F F"
  by (simp add: extends_def)

lemma run_inv:
  "cache_inv F hp \<Longrightarrow> run H rs (F, hp) = (outs, F', hp') \<Longrightarrow>
     cache_inv F' hp' \<and> extends F F' \<and> length outs = length rs
     \<and> (\<forall>i < length rs. recorded H F' (rs ! i) (outs ! i))"
proof (induction rs arbitrary: F hp outs F' hp')
  case Nil
  then show ?case by (simp add: extends_refl)
next
  case (Cons r rs)
  obtain a F1 hp1 where p: "perform H r (F, hp) = (a, F1, hp1)"
    by (cases "perform H r (F, hp)") auto
  obtain as F2 hp2 where r: "run H rs (F1, hp1) = (as, F2, hp2)"
    by (cases "run H rs (F1, hp1)") auto
  from Cons.prems(2) p r have eq: "outs = a # as" "F' = F2" "hp' = hp2" by simp_all
  note st = perform_step [OF Cons.prems(1) p]
  then have inv1: "cache_inv F1 hp1" by simp
  note ih = Cons.IH [OF inv1 r]
  have "recorded H F2 r a" using st ih recorded_extends by blast
  moreover have "extends F F2" using st ih extends_trans by blast
  ultimately show ?case using ih eq by (auto simp: nth_Cons split: nat.splits)
qed

lemma cache_inv_fresh:
  "descriptorPools F = [] \<Longrightarrow> descriptorSets F = [] \<Longrightarrow> cache_inv F empty_heap"
  by (simp add: cache_inv_def keys_distinct_def pool_at_def set_at_def lookup2_def empty_heap_def)


lemma set_requests_same_instance_iff:
  assumes "descriptorPools F = []" "descriptorSets F = []"
    and run: "run H rs (F, empty_heap) = (outs, F', hp')"
    and i: "i < length rs" and j: "j < length rs"
    and ri: "rs ! i = GetDescriptorSet c l bs is" and rj: "rs ! j = GetDescriptorSet c l' bs' is'"
  shows "(outs ! i = outs ! j) = (set_hash H l bs is = set_hash H l' bs' is')"
proof -
  note r = run_inv [OF cache_inv_fresh [OF assms(1,2)] run]
  from r have inv: "cache_inv F' hp'" by simp
  from r i ri have a: "set_at F' c (set_hash H l bs is) = Some (outs ! i)" by force
  from r j rj have b: "set_at F' c (set_hash H l' bs' is') = Some (outs ! j)" by force
  show ?thesis
  proof
    assume "outs ! i = outs ! j"
    with a b cache_invD(4) [OF inv] show "set_hash H l bs is = set_hash H l' bs' is'" by metis
  next
    assume "set_hash H l bs is = set_hash H l' bs' is'"
    with a b show "outs ! i = outs ! j" by simp
  qed
qed

text \<open>There are more pairs of a sampler and an image view than there are hash values,
  so any function from image descriptions to \<open>size_t\<close> sends two different descriptions
  with the same image layout to one value.\<close>

lemma image_info_collision:
  fixes f :: "VkDescriptorImageInfo \<Rightarrow> 64 word"
  shows "\<exists>x y. x \<noteq> y \<and> dii_imageLayout x = dii_imageLayout y \<and> f x = f y"
proof -
  let ?g = "\<lambda>(s, v). f \<lparr>dii_sampler = s, dii_imageView = v, dii_imageLayout = 0\<rparr>"
  have "\<not> inj ?g"
  proof
    assume "inj ?g"
    then have "card (UNIV :: (64 word \<times> 64 word) set) \<le> card (UNIV :: 64 word set)"
      by (intro card_inj_on_le [of ?g]) auto
    then show False by (simp add: card_prod card_word)
  qed
  then obtain p q where pq: "p \<noteq> q" "?g p = ?g q" by (auto simp: inj_on_def)
  obtain s v where p: "p = (s, v)" by (cases p)
  obtain s' v' where q: "q = (s', v')" by (cases q)
  let ?x = "\<lparr>dii_sampler = s, dii_imageView = v, dii_imageLayout = 0\<rparr>"
  let ?y = "\<lparr>dii_sampler = s', dii_imageView = v', dii_imageLayout = 0\<rparr>"
  from pq p q have "?x \<noteq> ?y \<and> dii_imageLayout ?x = dii_imageLayout ?y \<and> f ?x = f ?y" by auto
  then show ?thesis by blast
qed

text \<open>
  Claim C2, as stated, fails: the set cache is keyed by the hash alone and \<open>find\<close>
  compares nothing else. Whatever VkHash.h computes, for every layout there are two
  image descriptions for binding 0 that differ in a resource handle (the sampler or
  the image view; their image layouts agree) and for which the second request gets
  the instance cached for the first.
\<close>

theorem hash_collision_shares_descriptor_set:
  "\<forall>(H :: 'l VkHash) l. \<exists>x y. x \<noteq> y \<and> dii_imageLayout x = dii_imageLayout y
      \<and> (\<exists>outs st. run H [GetDescriptorSet 0 l [] [(0, x)], GetDescriptorSet 0 l [] [(0, y)]]
                       (fresh_frame, empty_heap) = (outs, st)
            \<and> outs ! 0 = outs ! 1)"
proof (intro allI)
  fix H :: "'l VkHash" and l
  obtain x y where xy: "x \<noteq> y" "dii_imageLayout x = dii_imageLayout y"
      "hash_combine_image H (hash_value H l) x = hash_combine_image H (hash_value H l) y"
    using image_info_collision [of "hash_combine_image H (hash_value H l)"] by blast
  let ?rs = "[GetDescriptorSet 0 l [] [(0, x)], GetDescriptorSet 0 l [] [(0, y)]]"
  obtain outs F' hp' where run: "run H ?rs (fresh_frame, empty_heap) = (outs, F', hp')"
    by (cases "run H ?rs (fresh_frame, empty_heap)") auto
  have "(outs ! 0 = outs ! 1) = (set_hash H l [] [(0, x)] = set_hash H l [] [(0, y)])"
    by (rule set_requests_same_instance_iff [OF _ _ run, of 0 1 0]) (simp_all add: fresh_frame_def)
  with xy(3) have "outs ! 0 = outs ! 1" by (simp add: set_hash_def)
  with xy(1,2) run
  show "\<exists>x y. x \<noteq> y \<and> dii_imageLayout x = dii_imageLayout y
      \<and> (\<exists>outs st. run H [GetDescriptorSet 0 l [] [(0, x)], GetDescriptorSet 0 l [] [(0, y)]]
                       (fresh_frame, empty_heap) = (outs, st)
            \<and> outs ! 0 = outs ! 1)"
    by blast
qed

text \<open>
  Claim C2, amended: in any sequence of requests to a fresh frame, two
  \<open>getDescriptorSet\<close> calls on the same concurrency index return the identical cached
  instance exactly when the combined hashes of their (layout, buffer bindings, image
  bindings) agree. So the same combination always gets the same instance, and two
  combinations get distinct instances whenever their hashes differ.
\<close>

theorem descriptor_set_identity:
  assumes "descriptorPools F = []" "descriptorSets F = []"
    and "run H rs (F, empty_heap) = (outs, F', hp')"
    and "i < length rs" and "j < length rs"
    and "rs ! i = GetDescriptorSet c l bs is" and "rs ! j = GetDescriptorSet c l' bs' is'"
  shows "(outs ! i = outs ! j) = (set_hash H l bs is = set_hash H l' bs' is')"
  using assms by (rule set_requests_same_instance_iff)

theorem descriptor_set_identity_witness:
  "\<exists>outs st. run example_hash
       [GetDescriptorSet 0 7 a_buffer_binding [], GetDescriptorSet 0 7 other_buffer_binding [],
        GetDescriptorSet 0 7 a_buffer_binding []] (fresh_frame, empty_heap) = (outs, st)
     \<and> outs ! 0 = outs ! 2 \<and> outs ! 0 \<noteq> outs ! 1"
proof -
  let ?rs = "[GetDescriptorSet 0 7 a_buffer_binding [], GetDescriptorSet 0 7 other_buffer_binding [],
        GetDescriptorSet 0 (7::nat) a_buffer_binding []]"
  obtain outs F' hp' where run: "run example_hash ?rs (fresh_frame, empty_heap) = (outs, F', hp')"
    by (cases "run example_hash ?rs (fresh_frame, empty_heap)") auto
  have e: "descriptorPools fresh_frame = []" "descriptorSets fresh_frame = []"
    by (simp_all add: fresh_frame_def)
  have "outs ! 0 = outs ! 2"
    using descriptor_set_identity [OF e run, of 0 2 0 7 a_buffer_binding "[]" 7 a_buffer_binding "[]"]
    by simp
  moreover have "outs ! 0 \<noteq> outs ! 1"
    using descriptor_set_identity [OF e run, of 0 1 0 7 a_buffer_binding "[]" 7 other_buffer_binding "[]"]
    by (simp add: set_hash_def example_hash_def a_buffer_binding_def other_buffer_binding_def)
  ultimately show ?thesis using run by blast
qed


text \<open>One call of \<open>getDescriptorPool\<close> in any state: the pool it returns is cached under
  the hash of the layout, one pool object is made when none was cached and none
  otherwise, and asking again returns the same pool and changes nothing.\<close>

lemma getDescriptorPool_lazy_idempotent:
  "case getDescriptorPool H c l (F, hp) of (p, F1, hp1) \<Rightarrow>
     pool_at F1 c (hash_value H l) = Some p
     \<and> length (pool_objs hp1) =
          (if pool_at F c (hash_value H l) = None then Suc (length (pool_objs hp))
           else length (pool_objs hp))
     \<and> getDescriptorPool H c l (F1, hp1) = (p, F1, hp1)"
proof (cases "pool_at F c (hash_value H l)")
  case (Some q)
  then show ?thesis by (simp add: getDescriptorPool_eq)
next
  case None
  then have "pool_at (F\<lparr>descriptorPools :=
        cache_insert (descriptorPools F) c (hash_value H l) (next_addr hp)\<rparr>) c (hash_value H l)
      = Some (next_addr hp)"
    by (simp add: pool_at_def lookup2_cache_insert)
  with None show ?thesis by (simp add: getDescriptorPool_eq)
qed

text \<open>Runs of requests for one material.\<close>

lemma same_material_step:
  assumes P: "\<And>c k. (pool_at F c k \<noteq> None) = (c \<in> S \<and> k = hash_value H l)"
    and Q: "\<And>c k. (set_at F c k \<noteq> None) = (c \<in> S \<and> k = set_hash H l bs is)"
    and n: "length (pool_objs hp) = card S" "length (set_objs hp) = card S" and fin: "finite S"
    and call: "getDescriptorSet H c l bs is (F, hp) = (a, F', hp')"
  shows "(\<forall>c' k. (pool_at F' c' k \<noteq> None) = (c' \<in> insert c S \<and> k = hash_value H l))
     \<and> (\<forall>c' k. (set_at F' c' k \<noteq> None) = (c' \<in> insert c S \<and> k = set_hash H l bs is))
     \<and> length (pool_objs hp') = card (insert c S) \<and> length (set_objs hp') = card (insert c S)"
proof (cases "c \<in> S")
  case True
  with Q [of c "set_hash H l bs is"] obtain q where "set_at F c (set_hash H l bs is) = Some q" by auto
  with call have "F' = F" "hp' = hp" by (simp_all add: getDescriptorSet_eq)
  with True P Q n show ?thesis by (simp add: insert_absorb)
next
  case False
  with Q [of c "set_hash H l bs is"] have miss: "set_at F c (set_hash H l bs is) = None" by auto
  from False P [of c "hash_value H l"] have pmiss: "pool_at F c (hash_value H l) = None" by auto
  let ?F1 = "F\<lparr>descriptorPools := cache_insert (descriptorPools F) c (hash_value H l) (next_addr hp)\<rparr>"
  let ?n1 = "Suc (next_addr hp)"
  from call miss pmiss
  have F': "F' = ?F1\<lparr>descriptorSets := cache_insert (descriptorSets F) c (set_hash H l bs is) ?n1\<rparr>"
    and np: "length (pool_objs hp') = Suc (length (pool_objs hp))"
    and ns: "length (set_objs hp') = Suc (length (set_objs hp))"
    by (auto simp: getDescriptorSet_eq getDescriptorPool_eq)
  have pa: "\<And>c' k'. pool_at F' c' k' =
      (if c' = c \<and> k' = hash_value H l then Some (next_addr hp) else pool_at F c' k')"
    using pmiss by (simp add: F' pool_at_def lookup2_cache_insert)
  have sa: "\<And>c' k'. set_at F' c' k' =
      (if c' = c \<and> k' = set_hash H l bs is then Some ?n1 else set_at F c' k')"
    using miss by (simp add: F' set_at_def lookup2_cache_insert)
  show ?thesis using False fin n P Q by (auto simp: pa sa np ns)
qed

lemma same_material_run:
  assumes "\<And>c k. (pool_at F c k \<noteq> None) = (c \<in> S \<and> k = hash_value H l)"
    and "\<And>c k. (set_at F c k \<noteq> None) = (c \<in> S \<and> k = set_hash H l bs is)"
    and "length (pool_objs hp) = card S" "length (set_objs hp) = card S" and "finite S"
    and "run H (map (\<lambda>c. GetDescriptorSet c l bs is) cs) (F, hp) = (outs, F', hp')"
  shows "(\<forall>c k. (pool_at F' c k \<noteq> None) = (c \<in> S \<union> set cs \<and> k = hash_value H l))
     \<and> length (pool_objs hp') = card (S \<union> set cs) \<and> length (set_objs hp') = card (S \<union> set cs)"
  using assms
proof (induction cs arbitrary: F hp S outs)
  case Nil
  then show ?case by simp
next
  case (Cons c cs)
  obtain a F1 hp1 where g: "getDescriptorSet H c l bs is (F, hp) = (a, F1, hp1)"
    by (cases "getDescriptorSet H c l bs is (F, hp)") auto
  obtain as where r: "run H (map (\<lambda>c. GetDescriptorSet c l bs is) cs) (F1, hp1) = (as, F', hp')"
    using Cons.prems(6) g by (auto split: prod.splits)
  note st = same_material_step [OF Cons.prems(1,2,3,4,5) g]
  have "(\<forall>c' k. (pool_at F' c' k \<noteq> None) = (c' \<in> insert c S \<union> set cs \<and> k = hash_value H l))
     \<and> length (pool_objs hp') = card (insert c S \<union> set cs)
     \<and> length (set_objs hp') = card (insert c S \<union> set cs)"
    by (rule Cons.IH [OF _ _ _ _ _ r]) (use st Cons.prems(5) in simp_all)
  then show ?case by simp
qed

text \<open>A pool once returned stays the answer: in any run of requests from a fresh frame,
  two pool requests on one concurrency index get the same pool exactly when the hashes
  of their layouts agree, and the pool a request got is what \<open>getDescriptorPool\<close>
  returns after the run, with nothing created and nothing changed.\<close>

lemma pool_requests_same_instance_iff:
  assumes "descriptorPools F = []" "descriptorSets F = []"
    and run: "run H rs (F, empty_heap) = (outs, F', hp')"
    and i: "i < length rs" and j: "j < length rs"
    and ri: "rs ! i = GetDescriptorPool c l" and rj: "rs ! j = GetDescriptorPool c l'"
  shows "(outs ! i = outs ! j) = (hash_value H l = hash_value H l')"
proof -
  note r = run_inv [OF cache_inv_fresh [OF assms(1,2)] run]
  from r have inv: "cache_inv F' hp'" by simp
  from r i ri have a: "pool_at F' c (hash_value H l) = Some (outs ! i)" by force
  from r j rj have b: "pool_at F' c (hash_value H l') = Some (outs ! j)" by force
  show ?thesis
  proof
    assume "outs ! i = outs ! j"
    with a b cache_invD(3) [OF inv] show "hash_value H l = hash_value H l'" by metis
  next
    assume "hash_value H l = hash_value H l'"
    with a b show "outs ! i = outs ! j" by simp
  qed
qed

lemma pool_request_stays_answered:
  assumes "descriptorPools F = []" "descriptorSets F = []"
    and run: "run H rs (F, empty_heap) = (outs, F', hp')"
    and i: "i < length rs" and ri: "rs ! i = GetDescriptorPool c l"
  shows "getDescriptorPool H c l (F', hp') = (outs ! i, F', hp')"
proof -
  note r = run_inv [OF cache_inv_fresh [OF assms(1,2)] run]
  from r i ri have "pool_at F' c (hash_value H l) = Some (outs ! i)" by force
  then show ?thesis by (simp add: getDescriptorPool_eq)
qed

text \<open>One object per cache entry: the heap holds as many pools as the pool cache has
  keys, and as many sets as the set cache has keys.\<close>

lemma pool_keys_step:
  assumes fin: "finite (pool_keys F)" and n: "length (pool_objs hp) = card (pool_keys F)"
    and call: "getDescriptorPool H c l (F, hp) = (p, F', hp')"
  shows "finite (pool_keys F') \<and> length (pool_objs hp') = card (pool_keys F')
     \<and> set_keys F' = set_keys F \<and> set_objs hp' = set_objs hp"
proof (cases "pool_at F c (hash_value H l)")
  case (Some q)
  with call fin n show ?thesis by (simp add: getDescriptorPool_eq)
next
  case None
  let ?F = "F\<lparr>descriptorPools := cache_insert (descriptorPools F) c (hash_value H l) (next_addr hp)\<rparr>"
  from call None have F': "F' = ?F"
    and np: "length (pool_objs hp') = Suc (length (pool_objs hp))"
    and so: "set_objs hp' = set_objs hp"
    by (auto simp: getDescriptorPool_eq)
  have pa: "\<And>c' k'. pool_at F' c' k' =
      (if c' = c \<and> k' = hash_value H l then Some (next_addr hp) else pool_at F c' k')"
    using None by (simp add: F' pool_at_def lookup2_cache_insert)
  have k: "pool_keys F' = insert (c, hash_value H l) (pool_keys F)"
    by (auto simp: pool_keys_def pa)
  have "(c, hash_value H l) \<notin> pool_keys F" using None by (simp add: pool_keys_def)
  with fin n k np so show ?thesis by (simp add: F' set_keys_def set_at_def)
qed

lemma set_keys_step:
  assumes fin: "finite (pool_keys F)" "finite (set_keys F)"
    and n: "length (pool_objs hp) = card (pool_keys F)" "length (set_objs hp) = card (set_keys F)"
    and call: "getDescriptorSet H c l bs is (F, hp) = (a, F', hp')"
  shows "finite (pool_keys F') \<and> length (pool_objs hp') = card (pool_keys F')
     \<and> finite (set_keys F') \<and> length (set_objs hp') = card (set_keys F')"
proof (cases "set_at F c (set_hash H l bs is)")
  case (Some q)
  with call fin n show ?thesis by (simp add: getDescriptorSet_eq)
next
  case None
  obtain p F1 hp1 where gp: "getDescriptorPool H c l (F, hp) = (p, F1, hp1)"
    by (cases "getDescriptorPool H c l (F, hp)") auto
  note st = pool_keys_step [OF fin(1) n(1) gp]
  have ds: "descriptorSets F1 = descriptorSets F"
    using gp by (auto simp: getDescriptorPool_eq split: option.splits)
  let ?K = "set_hash H l bs is"
  from call None gp have F': "F' = F1\<lparr>descriptorSets := cache_insert (descriptorSets F) c ?K (next_addr hp1)\<rparr>"
    and np: "pool_objs hp' = pool_objs hp1"
    and ns: "length (set_objs hp') = Suc (length (set_objs hp1))"
    by (auto simp: getDescriptorSet_eq)
  have sa: "\<And>c' k'. set_at F' c' k' =
      (if c' = c \<and> k' = ?K then Some (next_addr hp1) else set_at F c' k')"
    using None by (simp add: F' set_at_def lookup2_cache_insert)
  have k: "set_keys F' = insert (c, ?K) (set_keys F)"
    by (auto simp: set_keys_def sa)
  have nk: "(c, ?K) \<notin> set_keys F" using None by (simp add: set_keys_def)
  have pk: "pool_keys F' = pool_keys F1" by (simp add: pool_keys_def pool_at_def F')
  from st fin n k nk np ns pk show ?thesis by simp
qed

lemma run_counts:
  "finite (pool_keys F) \<Longrightarrow> finite (set_keys F) \<Longrightarrow>
   length (pool_objs hp) = card (pool_keys F) \<Longrightarrow> length (set_objs hp) = card (set_keys F) \<Longrightarrow>
   run H rs (F, hp) = (outs, F', hp') \<Longrightarrow>
     length (pool_objs hp') = card (pool_keys F') \<and> length (set_objs hp') = card (set_keys F')"
proof (induction rs arbitrary: F hp outs)
  case Nil
  then show ?case by simp
next
  case (Cons r rs)
  obtain a F1 hp1 where p: "perform H r (F, hp) = (a, F1, hp1)"
    by (cases "perform H r (F, hp)") auto
  obtain as where rr: "run H rs (F1, hp1) = (as, F', hp')"
    using Cons.prems(5) p by (auto split: prod.splits)
  have "finite (pool_keys F1) \<and> length (pool_objs hp1) = card (pool_keys F1)
     \<and> finite (set_keys F1) \<and> length (set_objs hp1) = card (set_keys F1)"
  proof (cases r)
    case (GetDescriptorPool c l)
    with p have "getDescriptorPool H c l (F, hp) = (a, F1, hp1)" by simp
    from pool_keys_step [OF Cons.prems(1,3) this] Cons.prems(2,4) show ?thesis by simp
  next
    case (GetDescriptorSet c l bs "is")
    with p have "getDescriptorSet H c l bs is (F, hp) = (a, F1, hp1)" by simp
    from set_keys_step [OF Cons.prems(1,2,3,4) this] show ?thesis by simp
  qed
  then show ?case using Cons.IH [OF _ _ _ _ rr] by simp
qed

lemma fresh_counts:
  "descriptorPools F = [] \<Longrightarrow> descriptorSets F = [] \<Longrightarrow>
     pool_keys F = {} \<and> set_keys F = {}"
  by (simp add: pool_keys_def set_keys_def pool_at_def set_at_def lookup2_def)


lemma same_material_counts:
  assumes "descriptorPools F = []" "descriptorSets F = []"
    and run: "run H (map (\<lambda>c. GetDescriptorSet c l bs is) cs) (F, empty_heap) = (outs, F', hp')"
  shows "length (pool_objs hp') = card (set cs) \<and> length (set_objs hp') = card (set cs)
     \<and> (\<forall>c \<in> set cs. \<exists>p. pool_at F' c (hash_value H l) = Some p
            \<and> getDescriptorPool H c l (F', hp') = (p, F', hp'))"
proof -
  have e: "\<And>c k. pool_at F c k = None" "\<And>c k. set_at F c k = None"
    using assms(1,2) by (simp_all add: pool_at_def set_at_def lookup2_def)
  have r: "(\<forall>c k. (pool_at F' c k \<noteq> None) = (c \<in> {} \<union> set cs \<and> k = hash_value H l))
     \<and> length (pool_objs hp') = card ({} \<union> set cs) \<and> length (set_objs hp') = card ({} \<union> set cs)"
    by (rule same_material_run [OF _ _ _ _ _ run]) (simp_all add: e empty_heap_def)
  have "\<forall>c \<in> set cs. \<exists>p. pool_at F' c (hash_value H l) = Some p
            \<and> getDescriptorPool H c l (F', hp') = (p, F', hp')"
  proof
    fix c assume "c \<in> set cs"
    with r obtain p where "pool_at F' c (hash_value H l) = Some p" by auto
    then show "\<exists>p. pool_at F' c (hash_value H l) = Some p
            \<and> getDescriptorPool H c l (F', hp') = (p, F', hp')"
      by (simp add: getDescriptorPool_eq)
  qed
  with r show ?thesis by simp
qed

text \<open>
  Claim C3: \<open>getDescriptorPool\<close> creates lazily and is idempotent per slot. For any
  requests \<open>rs\<close> served by a fresh frame: two pool requests on the same concurrency
  index return the same pool exactly when the hashes of their layouts agree, whatever
  was requested in between; the pool a request returned is what a request for the same
  layout and index returns after the run, with nothing created and nothing changed;
  the number of pools made is the number of (index, layout hash) keys in the pool
  cache, and the number of sets made is the number of keys in the set cache. When all
  requests are for one material on the indices \<open>cs\<close>, both numbers equal the number of
  distinct indices in \<open>cs\<close>, not the number of requests. The last conjunct is one call
  in any state \<open>(F0, hp0)\<close>: one pool is made when none is cached under the layout
  hash of the index and none otherwise, the pool returned is cached, and asking again
  returns it and changes nothing.
\<close>

theorem one_pool_per_slot_and_layout:
  assumes "descriptorPools F = []" "descriptorSets F = []"
    and "run H rs (F, empty_heap) = (outs, F', hp')"
  shows "(\<forall>i j c la lb. i < length rs \<and> j < length rs
            \<and> rs ! i = GetDescriptorPool c la \<and> rs ! j = GetDescriptorPool c lb
            \<longrightarrow> (outs ! i = outs ! j) = (hash_value H la = hash_value H lb))
     \<and> (\<forall>i c la. i < length rs \<and> rs ! i = GetDescriptorPool c la
            \<longrightarrow> getDescriptorPool H c la (F', hp') = (outs ! i, F', hp'))
     \<and> length (pool_objs hp') = card (pool_keys F')
     \<and> length (set_objs hp') = card (set_keys F')
     \<and> (rs = map (\<lambda>c. GetDescriptorSet c l bufs imgs) cs \<longrightarrow>
           length (pool_objs hp') = card (set cs) \<and> length (set_objs hp') = card (set cs)
           \<and> (\<forall>c \<in> set cs. \<exists>p. pool_at F' c (hash_value H l) = Some p
                  \<and> getDescriptorPool H c l (F', hp') = (p, F', hp')))
     \<and> (case getDescriptorPool H c0 l0 (F0, hp0) of (p, F1, hp1) \<Rightarrow>
          pool_at F1 c0 (hash_value H l0) = Some p
          \<and> length (pool_objs hp1) =
               (if pool_at F0 c0 (hash_value H l0) = None then Suc (length (pool_objs hp0))
                else length (pool_objs hp0))
          \<and> getDescriptorPool H c0 l0 (F1, hp1) = (p, F1, hp1))"
proof -
  have A: "\<forall>i j c la lb. i < length rs \<and> j < length rs
            \<and> rs ! i = GetDescriptorPool c la \<and> rs ! j = GetDescriptorPool c lb
            \<longrightarrow> (outs ! i = outs ! j) = (hash_value H la = hash_value H lb)"
    using pool_requests_same_instance_iff [OF assms] by blast
  have B: "\<forall>i c la. i < length rs \<and> rs ! i = GetDescriptorPool c la
            \<longrightarrow> getDescriptorPool H c la (F', hp') = (outs ! i, F', hp')"
    using pool_request_stays_answered [OF assms] by blast
  have C: "length (pool_objs hp') = card (pool_keys F') \<and> length (set_objs hp') = card (set_keys F')"
    by (rule run_counts [OF _ _ _ _ assms(3)])
       (simp_all add: fresh_counts [OF assms(1,2)] empty_heap_def)
  have D: "rs = map (\<lambda>c. GetDescriptorSet c l bufs imgs) cs \<longrightarrow>
           length (pool_objs hp') = card (set cs) \<and> length (set_objs hp') = card (set cs)
           \<and> (\<forall>c \<in> set cs. \<exists>p. pool_at F' c (hash_value H l) = Some p
                  \<and> getDescriptorPool H c l (F', hp') = (p, F', hp'))"
  proof
    assume "rs = map (\<lambda>c. GetDescriptorSet c l bufs imgs) cs"
    with assms(3) have "run H (map (\<lambda>c. GetDescriptorSet c l bufs imgs) cs) (F, empty_heap) = (outs, F', hp')"
      by simp
    from same_material_counts [OF assms(1,2) this]
    show "length (pool_objs hp') = card (set cs) \<and> length (set_objs hp') = card (set cs)
           \<and> (\<forall>c \<in> set cs. \<exists>p. pool_at F' c (hash_value H l) = Some p
                  \<and> getDescriptorPool H c l (F', hp') = (p, F', hp'))" .
  qed
  from A B C D getDescriptorPool_lazy_idempotent [where H = H and c = c0 and l = l0 and F = F0 and hp = hp0]
  show ?thesis by blast
qed

theorem one_pool_per_slot_and_layout_witness:
  "(\<exists>outs F' hp'. run example_hash (map (\<lambda>c. GetDescriptorSet c 7 a_buffer_binding []) [0, 1, 0])
        (fresh_frame, empty_heap) = (outs, F', hp')
     \<and> length (pool_objs hp') = 2 \<and> length (set_objs hp') = 2)
   \<and> (\<exists>outs F' hp'. run example_hash
          [GetDescriptorPool 0 7, GetDescriptorPool 0 8, GetDescriptorPool 0 7]
          (fresh_frame, empty_heap) = (outs, F', hp')
        \<and> outs ! 0 = outs ! 2 \<and> outs ! 0 \<noteq> outs ! 1
        \<and> getDescriptorPool example_hash 0 7 (F', hp') = (outs ! 0, F', hp'))"
proof -
  have e: "descriptorPools fresh_frame = []" "descriptorSets fresh_frame = []"
    by (simp_all add: fresh_frame_def)
  obtain outs F' hp' where run:
    "run example_hash (map (\<lambda>c. GetDescriptorSet c 7 a_buffer_binding []) [0, 1, 0])
        (fresh_frame, empty_heap) = (outs, F', hp')"
    using prod_cases3 by blast
  have "set [0, 1, 0 :: uint32_t] = {0, 1}" by auto
  then have c: "card (set [0, 1, 0 :: uint32_t]) = 2" by simp
  note D = one_pool_per_slot_and_layout [OF e run, where l = 7 and bufs = a_buffer_binding
      and imgs = "[]" and cs = "[0, 1, 0]", THEN conjunct2, THEN conjunct2, THEN conjunct2,
      THEN conjunct2, THEN conjunct1, THEN mp, OF refl]
  from D c have 1: "length (pool_objs hp') = 2 \<and> length (set_objs hp') = 2" by simp
  let ?rs = "[GetDescriptorPool 0 7, GetDescriptorPool 0 8, GetDescriptorPool 0 (7::nat)]"
  obtain outs2 F2 hp2 where run2: "run example_hash ?rs (fresh_frame, empty_heap) = (outs2, F2, hp2)"
    using prod_cases3 by blast
  note t = one_pool_per_slot_and_layout [OF e run2]
  from t [THEN conjunct1, rule_format, of 0 2 0 7 7]
  have a: "outs2 ! 0 = outs2 ! 2" by simp
  from t [THEN conjunct1, rule_format, of 0 1 0 7 8]
  have b: "outs2 ! 0 \<noteq> outs2 ! 1" by (simp add: example_hash_def)
  from t [THEN conjunct2, THEN conjunct1, rule_format, of 0 0 7]
  have c2: "getDescriptorPool example_hash 0 7 (F2, hp2) = (outs2 ! 0, F2, hp2)" by simp
  from 1 run a b c2 run2 show ?thesis by blast
qed









end
